theory Spec2Isabelle
  imports Complex_Main "HOL-Library.Product_Lexorder" "HOL-Library.AList" "HOL-Library.Multiset"
begin

section \<open>Python values shared by both modules\<close>

text \<open>
  Exceptions are values. Only the exception classes that the modelled functions can
  raise are listed.
\<close>

datatype py_error =
    IndexError | KeyError | ValueError | TypeError | UnboundLocalError | LinAlgError

text \<open>
  A point in time is (year, month, day, nanoseconds since midnight). Both
  \<^verbatim>\<open>np.datetime64\<close> values and \<^verbatim>\<open>cftime\<close> dates of one calendar compare
  field by field in this order, which is the lexicographic order on the tuple.
  \<^verbatim>\<open>np.datetime64('1870-01-01')\<close> has day resolution and compares as midnight.
\<close>

type_synonym date = "int \<times> nat \<times> nat \<times> nat"

definition mkdate :: "int \<Rightarrow> nat \<Rightarrow> nat \<Rightarrow> date" where
  "mkdate y m d = (y, m, d, 0)"

text \<open>Python's \<^verbatim>\<open>range(a, b)\<close> with step 1.\<close>

definition py_range :: "int \<Rightarrow> int \<Rightarrow> int list" where
  "py_range a b = [a .. b - 1]"

section \<open>FP\_classes.py: class Trend\<close>

text \<open>
  The gradient is a time series: one (timestamp, value) pair per sample, in the order
  of the time axis. Timestamps are \<^verbatim>\<open>datetime64\<close> (\<^verbatim>\<open>ModelInput.FixDate\<close>
  converts them), values are floats, idealised here as real numbers.
  A cell of the trend dictionary holds a float: \<^verbatim>\<open>np.nan\<close> or a number.
\<close>

type_synonym series = "(date \<times> real) list"

datatype trend = NaN | Value real

type_synonym trends = "(int \<times> int) \<rightharpoonup> trend"

text \<open>
  \<^verbatim>\<open>np.polyfit(x, y, 1)\<close> is a library function; the loop is written over any
  function of its type, which may raise. It returns (slope, intercept).
\<close>

type_synonym polyfit = "int list \<Rightarrow> real list \<Rightarrow> py_error + real \<times> real"

definition monStart :: nat where "monStart = 1"
definition monEnd :: nat where "monEnd = 12"
definition yearStart :: int where "yearStart = 1870"
definition yearEnd :: int where "yearEnd = 2024"
definition dayStart :: nat where "dayStart = 1"
definition dayEnd :: nat where "dayEnd = 31"
definition interval :: int where "interval = 1"
definition trendLength :: real where "trendLength = 120"

text \<open>\<^verbatim>\<open>indexTime = np.arange(len(self.gradient.time))\<close>\<close>

definition indexTime :: "series \<Rightarrow> int list" where
  "indexTime gradient = map int [0 ..< length gradient]"

text \<open>
  \<^verbatim>\<open>self.gradient.sel(time = (time >= start_date) & (time <= end_date))\<close>:
  selection by a boolean mask keeps the samples whose mask is true, in order.
\<close>

definition sel_time :: "series \<Rightarrow> date \<Rightarrow> date \<Rightarrow> series" where
  "sel_time gradient start_date end_date =
     filter (\<lambda>(t, v). start_date \<le> t \<and> t \<le> end_date) gradient"

text \<open>
  The window of one cell: the calendar bounds \<^verbatim>\<open>start_year-01-01\<close> and
  \<^verbatim>\<open>end_year-12-31\<close> and the samples between them (\<^verbatim>\<open>gradientSubset\<close>).
\<close>

definition gradientSubset :: "series \<Rightarrow> int \<Rightarrow> int \<Rightarrow> series" where
  "gradientSubset gradient start_year end_year =
     (let start_date = mkdate start_year monStart dayStart;
          end_date = mkdate end_year monEnd dayEnd
      in sel_time gradient start_date end_date)"

text \<open>The body of the inner loop: the value stored for one (start\_year, end\_year).\<close>

definition trend_cell ::
  "polyfit \<Rightarrow> int \<Rightarrow> series \<Rightarrow> int \<Rightarrow> int \<Rightarrow> py_error + trend" where
  "trend_cell fit minTrend gradient start_year end_year =
     (if start_year \<ge> end_year then Inr NaN
      else if end_year - start_year < minTrend then Inr NaN
      else
        let subset = gradientSubset gradient start_year end_year;
            indexTimeSubset = take (length subset) (indexTime gradient)
        in if int (length indexTimeSubset) > 12 * interval then
             (case fit indexTimeSubset (map snd subset) of
                Inl e \<Rightarrow> Inl e
              | Inr (slope, intercept) \<Rightarrow> Inr (Value (slope * trendLength)))
           else Inr NaN)"

text \<open>
  The two nested \<^verbatim>\<open>for\<close> loops. They run inside one \<^verbatim>\<open>try\<close> block: an exception
  leaves both loops at once, the handler prints it, and \<^verbatim>\<open>self.trends\<close> keeps the
  entries written so far. The result is the dictionary together with the exception that
  was caught, if any.
\<close>

fun loop_end_years ::
  "polyfit \<Rightarrow> int \<Rightarrow> series \<Rightarrow> int \<Rightarrow> int list \<Rightarrow> trends \<Rightarrow> trends \<times> py_error option" where
  "loop_end_years fit minTrend gradient start_year [] tr = (tr, None)"
| "loop_end_years fit minTrend gradient start_year (end_year # rest) tr =
     (case trend_cell fit minTrend gradient start_year end_year of
        Inl e \<Rightarrow> (tr, Some e)
      | Inr v \<Rightarrow>
          loop_end_years fit minTrend gradient start_year rest (tr((start_year, end_year) \<mapsto> v)))"

fun loop_start_years ::
  "polyfit \<Rightarrow> int \<Rightarrow> series \<Rightarrow> int list \<Rightarrow> int list \<Rightarrow> trends \<Rightarrow> trends \<times> py_error option" where
  "loop_start_years fit minTrend gradient [] end_years tr = (tr, None)"
| "loop_start_years fit minTrend gradient (start_year # rest) end_years tr =
     (case loop_end_years fit minTrend gradient start_year end_years tr of
        (tr', Some e) \<Rightarrow> (tr', Some e)
      | (tr', None) \<Rightarrow> loop_start_years fit minTrend gradient rest end_years tr')"

definition CalculateTrends :: "polyfit \<Rightarrow> int \<Rightarrow> series \<Rightarrow> trends \<times> py_error option" where
  "CalculateTrends fit minTrend gradient =
     loop_start_years fit minTrend gradient
       (py_range yearStart (yearEnd + 1 - minTrend))
       (py_range (yearStart + minTrend) (yearEnd + 1))
       Map.empty"

text \<open>
  \<^verbatim>\<open>np.polyfit(x, y, 1)\<close> in exact arithmetic: the least-squares line through the
  points, by the normal equations. numpy raises TypeError for an empty \<open>x\<close> and for
  \<open>x\<close> and \<open>y\<close> of different lengths. (With fewer than two distinct abscissae the system
  is rank deficient and numpy answers with a warning; \<open>trend_cell\<close> never calls the fit
  there, since it passes the indices \<open>0, 1, \<dots>\<close> of more than 12 samples.)
\<close>

definition sumr :: "int list \<Rightarrow> real" where
  "sumr x = (\<Sum>a\<leftarrow>x. real_of_int a)"

definition sumxy :: "int list \<Rightarrow> real list \<Rightarrow> real" where
  "sumxy x y = (\<Sum>(a, b)\<leftarrow>zip x y. real_of_int a * b)"

definition ols_slope :: "int list \<Rightarrow> real list \<Rightarrow> real" where
  "ols_slope x y =
     (real (length x) * sumxy x y - sumr x * sum_list y) /
     (real (length x) * sumxy x (map real_of_int x) - sumr x * sumr x)"

definition ols_intercept :: "int list \<Rightarrow> real list \<Rightarrow> real" where
  "ols_intercept x y = (sum_list y - ols_slope x y * sumr x) / real (length x)"

definition np_polyfit1 :: polyfit where
  "np_polyfit1 x y =
     (if x = [] \<or> length x \<noteq> length y then Inl TypeError
      else Inr (ols_slope x y, ols_intercept x y))"

text \<open>The sum of squared residuals of the line \<open>a * x + b\<close>, which least squares minimises.\<close>

definition sq_residuals :: "int list \<Rightarrow> real list \<Rightarrow> real \<Rightarrow> real \<Rightarrow> real" where
  "sq_residuals x y a b = (\<Sum>(u, v)\<leftarrow>zip x y. (v - (a * real_of_int u + b))\<^sup>2)"

subsection \<open>Example inputs\<close>

text \<open>
  A monthly series of 26 samples, mid-month from January 1870 to February 1872, whose
  value at sample \<open>i\<close> is \<open>0.01 * i\<close>.
\<close>

definition monthly_1870 :: series where
  "monthly_1870 =
     map (\<lambda>i. ((1870 + int (i div 12), i mod 12 + 1, 16, 0), real i / 100)) [0 ..< 26]"

text \<open>
  A fit that raises on windows of exactly \<open>n\<close> samples (as
  \<^verbatim>\<open>numpy.linalg.LinAlgError\<close> from the SVD would) and is \<open>np_polyfit1\<close> elsewhere.
\<close>

definition polyfit_failing_at :: "nat \<Rightarrow> polyfit" where
  "polyfit_failing_at n x y = (if length y = n then Inl LinAlgError else np_polyfit1 x y)"

section \<open>FP\_classes.py: class Gradient\<close>









subsection \<open>Example input\<close>


section \<open>FP\_functions.py\<close>

text \<open>
  A timestamp of a dataset is a date in one of the representations the code tells apart
  with \<^verbatim>\<open>isinstance\<close>: \<^verbatim>\<open>np.datetime64\<close>, \<^verbatim>\<open>cftime.DatetimeNoLeap\<close>, or another
  \<^verbatim>\<open>cftime\<close> class (such as \<^verbatim>\<open>Datetime360Day\<close>). A dataset is its attributes and its
  rows along the time axis; what a row holds besides its timestamp is left open.
\<close>

datatype time_repr = Datetime64 | DatetimeNoLeap | DatetimeOther

type_synonym stamp = "time_repr \<times> date"

record 'v dataset =
  attrs :: "string \<rightharpoonup> string"
  rows :: "(stamp \<times> 'v) list"

definition time_values :: "'v dataset \<Rightarrow> stamp list" where
  "time_values ds = map fst (rows ds)"

definition dates :: "'v dataset \<Rightarrow> date list" where
  "dates ds = map (\<lambda>r. snd (fst r)) (rows ds)"

text \<open>
  \<^verbatim>\<open>xr.concat([ds, ds2], dim = 'time')\<close>: the rows of the first followed by the rows of
  the second; the attributes are those of the first.
\<close>

definition xr_concat :: "'v dataset \<Rightarrow> 'v dataset \<Rightarrow> 'v dataset" where
  "xr_concat ds ds2 = ds\<lparr>rows := rows ds @ rows ds2\<rparr>"

text \<open>
  \<^verbatim>\<open>ds.sortby('time')\<close>: a stable sort of the rows by timestamp. Timestamps of
  different representations do not compare (TypeError).
\<close>

definition sortby_time :: "'v dataset \<Rightarrow> py_error + 'v dataset" where
  "sortby_time ds =
     (if \<forall>r\<in>set (rows ds). \<forall>r'\<in>set (rows ds). fst (fst r) = fst (fst r')
      then Inr (ds\<lparr>rows := sort_key (\<lambda>r. snd (fst r)) (rows ds)\<rparr>)
      else Inl TypeError)"

subsection \<open>ConcatModels\<close>

text \<open>
  \<^verbatim>\<open>modelDict\<close> is the list of references of one model; \<^verbatim>\<open>xr.open_dataset\<close> is a
  parameter. The coverage test compares the first and the last timestamp with bounds
  built in the representation of the first timestamp; for a representation that neither
  \<^verbatim>\<open>isinstance\<close> test accepts the bounds are never assigned.
\<close>

definition covers :: "'v dataset \<Rightarrow> date \<Rightarrow> date \<Rightarrow> py_error + 'v dataset" where
  "covers ds start_date end_date =
     (if snd (fst (hd (rows ds))) \<le> start_date \<and> end_date \<le> snd (fst (last (rows ds)))
      then Inr ds
      else Inl ValueError)"

definition ConcatModels :: "('r \<Rightarrow> 'v dataset) \<Rightarrow> 'r list \<Rightarrow> py_error + 'v dataset" where
  "ConcatModels open_dataset modelDict =
     (case modelDict of
        [] \<Rightarrow> Inl IndexError
      | first # others \<Rightarrow>
          (let ds = foldl (\<lambda>ds m. xr_concat ds (open_dataset m)) (open_dataset first) others
           in case sortby_time ds of
                Inl e \<Rightarrow> Inl e
              | Inr ds \<Rightarrow>
                  (let start_year = 1850; end_year = 2014
                   in case time_values ds of
                        [] \<Rightarrow> Inl IndexError
                      | t0 # _ \<Rightarrow>
                          if fst t0 = Datetime64
                          then covers ds (mkdate start_year 1 31) (mkdate end_year 12 1)
                          else if fst t0 = DatetimeNoLeap
                          then covers ds (mkdate start_year 1 31) (mkdate end_year 12 1)
                          else Inl UnboundLocalError)))"

subsection \<open>ExtendPeriod\<close>

text \<open>
  The scenario registry is a Python dictionary from keys to lists of candidate
  references: an association list in insertion order. Assigning to a key that is present
  replaces its value in place, assigning to a new key appends it (\<open>AList.update\<close>).
\<close>

type_synonym 'r registry = "(string \<times> 'r list) list"

text \<open>\<^verbatim>\<open>str(counter)\<close>: the decimal digits of a natural number.\<close>

fun str :: "nat \<Rightarrow> string" where
  "str n =
     (if n < 10 then [''0123456789'' ! n] else str (n div 10) @ [''0123456789'' ! (n mod 10)])"

declare str.simps [simp del]

text \<open>\<^verbatim>\<open>s.index(c)\<close>: the first position of \<open>c\<close>, ValueError if there is none.\<close>

definition str_index :: "string \<Rightarrow> char \<Rightarrow> py_error + nat" where
  "str_index s c =
     (if c \<in> set s then Inr (length (takeWhile (\<lambda>x. x \<noteq> c) s)) else Inl ValueError)"

text \<open>The flattening loop, and its inner loop over the candidates of one key.\<close>

fun flatten_sub :: "string \<Rightarrow> 'r list \<Rightarrow> nat \<Rightarrow> 'r registry \<Rightarrow> 'r registry" where
  "flatten_sub key [] counter flat = flat"
| "flatten_sub key (subValue # rest) counter flat =
     flatten_sub key rest (counter + 1) (AList.update (key @ ''_'' @ str counter) [subValue] flat)"

fun flatten :: "'r registry \<Rightarrow> 'r registry \<Rightarrow> 'r registry" where
  "flatten [] flat = flat"
| "flatten ((key, value) # items) flat =
     flatten items
       (if length value > 1 then flatten_sub key value 0 flat else AList.update key value flat)"

text \<open>The loop that cuts each flattened key at its first underscore.\<close>

fun model_sources :: "string list \<Rightarrow> py_error + string list" where
  "model_sources [] = Inr []"
| "model_sources (i # rest) =
     (case str_index i CHR ''_'' of
        Inl e \<Rightarrow> Inl e
      | Inr index \<Rightarrow>
          (case model_sources rest of
             Inl e \<Rightarrow> Inl e
           | Inr scenarioModelSource \<Rightarrow> Inr (take index i # scenarioModelSource)))"

text \<open>
  \<^verbatim>\<open>random.choice(seq)\<close> raises IndexError on an empty sequence and otherwise returns
  \<^verbatim>\<open>seq[k]\<close> for a random \<open>k\<close> below the length; the draw \<open>r\<close> is a parameter.
\<close>

definition random_choice :: "nat \<Rightarrow> 'a list \<Rightarrow> py_error + 'a" where
  "random_choice r seq = (if seq = [] then Inl IndexError else Inr (seq ! (r mod length seq)))"

text \<open>The \<^verbatim>\<open>else\<close> branch up to \<^verbatim>\<open>scenarioRandom\<close>, the flattened key that is drawn.\<close>

definition scenarioRandom :: "nat \<Rightarrow> 'v dataset \<Rightarrow> 'r registry \<Rightarrow> py_error + string" where
  "scenarioRandom r modelInput_ds scenarioModels =
     (case attrs modelInput_ds ''source_id'' of
        None \<Rightarrow> Inl KeyError
      | Some modelHistID \<Rightarrow>
     (case attrs modelInput_ds ''variant_label'' of
        None \<Rightarrow> Inl KeyError
      | Some runHist \<Rightarrow>
     (let scenarioModelsFlat = flatten scenarioModels []
      in case model_sources (map fst scenarioModelsFlat) of
           Inl e \<Rightarrow> Inl e
         | Inr scenarioModelSource \<Rightarrow>
     (let histMask = map (\<lambda>modelID. modelID = modelHistID) scenarioModelSource;
          indices = [0 ..< length (map fst scenarioModelsFlat)];
          indicesMatch = map fst (filter snd (zip indices histMask))
      in case random_choice r indicesMatch of
           Inl e \<Rightarrow> Inl e
         | Inr chosen \<Rightarrow> Inr (map fst scenarioModelsFlat ! chosen)))))"

text \<open>
  \<^verbatim>\<open>ModelInput(candidates[0]).ds\<close> followed by the concatenation with the historical
  run. The loader \<^verbatim>\<open>ModelInput\<close> is a parameter: the function from a candidate
  reference to the dataset it yields.
\<close>

definition concat_first ::
  "('r \<Rightarrow> 'v dataset) \<Rightarrow> 'v dataset \<Rightarrow> 'r list option \<Rightarrow> py_error + 'v dataset" where
  "concat_first ModelInput_ds modelInput_ds candidates =
     (case candidates of
        None \<Rightarrow> Inl KeyError
      | Some [] \<Rightarrow> Inl IndexError
      | Some (c # _) \<Rightarrow> Inr (xr_concat modelInput_ds (ModelInput_ds c)))"

definition ExtendPeriod ::
  "('r \<Rightarrow> 'v dataset) \<Rightarrow> nat \<Rightarrow> string \<Rightarrow> 'v dataset \<Rightarrow> 'r registry \<Rightarrow> py_error + 'v dataset" where
  "ExtendPeriod ModelInput_ds r key modelInput_ds scenarioModels =
     (if key \<in> set (map fst scenarioModels)
      then concat_first ModelInput_ds modelInput_ds (map_of scenarioModels key)
      else
        (case scenarioRandom r modelInput_ds scenarioModels of
           Inl e \<Rightarrow> Inl e
         | Inr chosen \<Rightarrow>
             concat_first ModelInput_ds modelInput_ds
               (map_of (flatten scenarioModels []) chosen)))"

subsection \<open>Example inputs\<close>

text \<open>
  A historical run of source \<open>A\<close>, variant \<open>r2\<close>, ending in December 2014; a registry
  with two candidates continuing \<open>A\<close>, \<open>r1\<close> and one continuing \<open>B\<close>, \<open>r1\<close>; and the
  datasets behind the candidate references. The first candidate starts in December
  2014, within the span of the scenario window test of
  \<^verbatim>\<open>CreateScenarioDictionary\<close> (first timestamp at or before 2015-01-31).
\<close>

definition hist_run :: "real dataset" where
  "hist_run =
     \<lparr>attrs = [''source_id'' \<mapsto> ''A'', ''variant_label'' \<mapsto> ''r2''],
      rows = [((Datetime64, (2014, 11, 16, 0)), 1), ((Datetime64, (2014, 12, 16, 0)), 2)]\<rparr>"

definition scenario_registry :: "string registry" where
  "scenario_registry = [(''A_r1'', [''u1'', ''u2'']), (''B_r1'', [''u3''])]"

definition scenario_store :: "string \<Rightarrow> real dataset" where
  "scenario_store url =
     (if url = ''u1''
      then \<lparr>attrs = [''source_id'' \<mapsto> ''A'', ''parent_variant_label'' \<mapsto> ''r1''],
            rows = [((Datetime64, (2014, 12, 16, 0)), 3), ((Datetime64, (2015, 1, 16, 0)), 4)]\<rparr>
      else \<lparr>attrs = [''source_id'' \<mapsto> ''A'', ''parent_variant_label'' \<mapsto> ''r1''],
            rows = [((Datetime64, (2015, 1, 16, 0)), 5), ((Datetime64, (2015, 2, 16, 0)), 6)]\<rparr>)"

text \<open>
  Two fragments of one historical run, given late fragment first, and a run on a
  360-day calendar that spans the whole period.
\<close>

definition fragment_store :: "string \<Rightarrow> real dataset" where
  "fragment_store url =
     (if url = ''late''
      then \<lparr>attrs = [''source_id'' \<mapsto> ''A''],
            rows = [((Datetime64, (1950, 1, 16, 0)), 3), ((Datetime64, (2014, 12, 16, 0)), 4)]\<rparr>
      else \<lparr>attrs = [''source_id'' \<mapsto> ''A''],
            rows = [((Datetime64, (1850, 1, 16, 0)), 1), ((Datetime64, (1949, 12, 16, 0)), 2)]\<rparr>)"

definition run_360_day :: "real dataset" where
  "run_360_day =
     \<lparr>attrs = [''source_id'' \<mapsto> ''B''],
      rows = [((DatetimeOther, (1850, 1, 16, 0)), 1), ((DatetimeOther, (2014, 12, 16, 0)), 2)]\<rparr>"

definition store_360_day :: "string \<Rightarrow> real dataset" where
  "store_360_day url = run_360_day"

section \<open>Properties of the trend matrix\<close>

subsection \<open>Selecting a window from a sorted time axis\<close>

lemma sorted_filter_ge:
  "sorted (map f xs) \<Longrightarrow> filter (\<lambda>x. lo \<le> f x) xs = dropWhile (\<lambda>x. f x < lo) xs"
proof (induction xs)
  case Nil then show ?case by simp
next
  case (Cons x xs)
  show ?case
  proof (cases "f x < lo")
    case True with Cons show ?thesis by simp
  next
    case False
    with Cons.prems have "\<forall>y\<in>set xs. lo \<le> f y" by auto
    then have "filter (\<lambda>x. lo \<le> f x) xs = xs" by simp
    with False show ?thesis by simp
  qed
qed

lemma sorted_filter_le:
  "sorted (map f xs) \<Longrightarrow> filter (\<lambda>x. f x \<le> hi) xs = takeWhile (\<lambda>x. f x \<le> hi) xs"
proof (induction xs)
  case Nil then show ?case by simp
next
  case (Cons x xs)
  show ?case
  proof (cases "f x \<le> hi")
    case True with Cons show ?thesis by simp
  next
    case False
    with Cons.prems have "\<forall>y\<in>set xs. \<not> f y \<le> hi" by auto
    then have "filter (\<lambda>x. f x \<le> hi) xs = []" by simp
    with False show ?thesis by simp
  qed
qed

lemma sorted_map_dropWhile:
  "sorted (map f xs) \<Longrightarrow> sorted (map f (dropWhile P xs))"
  by (induction xs) auto

lemma sel_time_contiguous:
  assumes "sorted (map fst gradient)"
  shows "\<exists>k. sel_time gradient lo hi = take (length (sel_time gradient lo hi)) (drop k gradient)"
proof -
  let ?d = "dropWhile (\<lambda>x. fst x < lo) gradient"
  have 1: "filter (\<lambda>x. lo \<le> fst x) gradient = ?d"
    using assms by (rule sorted_filter_ge)
  have 2: "filter (\<lambda>x. fst x \<le> hi) ?d = takeWhile (\<lambda>x. fst x \<le> hi) ?d"
    using assms by (intro sorted_filter_le sorted_map_dropWhile)
  have "sel_time gradient lo hi = filter (\<lambda>x. fst x \<le> hi) (filter (\<lambda>x. lo \<le> fst x) gradient)"
    by (simp add: sel_time_def case_prod_unfold conj_commute)
  then have 3: "sel_time gradient lo hi = takeWhile (\<lambda>x. fst x \<le> hi) ?d"
    using 1 2 by simp
  have 4: "?d = drop (length (takeWhile (\<lambda>x. fst x < lo) gradient)) gradient"
    by (rule dropWhile_eq_drop)
  have "takeWhile (\<lambda>x. fst x \<le> hi) ?d = take (length (takeWhile (\<lambda>x. fst x \<le> hi) ?d)) ?d"
    by (rule takeWhile_eq_take)
  with 3 4 show ?thesis by metis
qed

subsection \<open>The least-squares line\<close>

lemma sumr_upt: "sumr (map int [0..<n]) = real n * (real n - 1) / 2"
  by (induction n) (simp_all add: sumr_def field_simps)

lemma sumxx_upt:
  "sumxy (map int [0..<n]) (map real_of_int (map int [0..<n])) = (real n - 1) * real n * (2 * real n - 1) / 6"
  by (induction n) (simp_all add: sumxy_def field_simps zip_append)

lemma ols_denominator_upt:
  "real (length (map int [0..<n])) * sumxy (map int [0..<n]) (map real_of_int (map int [0..<n]))
     - sumr (map int [0..<n]) * sumr (map int [0..<n]) = (real n)\<^sup>2 * ((real n)\<^sup>2 - 1) / 12"
  unfolding sumr_upt sumxx_upt by (simp add: power2_eq_square field_simps)

lemma ols_denominator_pos:
  assumes "2 \<le> n"
  shows "0 < real (length (map int [0..<n])) * sumxy (map int [0..<n]) (map real_of_int (map int [0..<n]))
     - sumr (map int [0..<n]) * sumr (map int [0..<n])"
proof -
  have "1 < real n" using assms by simp
  then have "1 < (real n)\<^sup>2" by (simp add: power2_eq_square less_1_mult)
  then have "0 < (real n)\<^sup>2 * ((real n)\<^sup>2 - 1) / 12" using assms by simp
  then show ?thesis unfolding ols_denominator_upt .
qed

lemma sq_residuals_expand:
  "length x = length y \<Longrightarrow>
   sq_residuals x y a' b' =
     sq_residuals x y a b
     + 2 * (a - a') * (sumxy x y - a * sumxy x (map real_of_int x) - b * sumr x)
     + 2 * (b - b') * (sum_list y - a * sumr x - b * real (length x))
     + (\<Sum>u\<leftarrow>x. ((a - a') * real_of_int u + (b - b'))\<^sup>2)"
proof (induction x y rule: list_induct2)
  case Nil
  then show ?case by (simp add: sq_residuals_def sumxy_def sumr_def)
next
  case (Cons u x v y)
  then show ?case
    by (simp add: sq_residuals_def sumxy_def sumr_def power2_eq_square algebra_simps)
qed

lemma normal_eq_intercept:
  assumes "x \<noteq> []"
  shows "sum_list y - ols_slope x y * sumr x - ols_intercept x y * real (length x) = 0"
  using assms by (simp add: ols_intercept_def)

lemma normal_eq_slope:
  assumes "x \<noteq> []" 
    and "real (length x) * sumxy x (map real_of_int x) - sumr x * sumr x \<noteq> 0"
  shows "sumxy x y - ols_slope x y * sumxy x (map real_of_int x) - ols_intercept x y * sumr x = 0"
proof -
  let ?n = "real (length x)"
  let ?D = "?n * sumxy x (map real_of_int x) - sumr x * sumr x"
  have n: "?n \<noteq> 0" using assms(1) by simp
  have a: "ols_slope x y * ?D = ?n * sumxy x y - sumr x * sum_list y"
    using assms(2) by (simp add: ols_slope_def)
  have b: "?n * ols_intercept x y = sum_list y - ols_slope x y * sumr x"
    using n by (simp add: ols_intercept_def)
  have "?n * (sumxy x y - ols_slope x y * sumxy x (map real_of_int x) - ols_intercept x y * sumr x)
       = ?n * sumxy x y - ols_slope x y * (?n * sumxy x (map real_of_int x)) - (?n * ols_intercept x y) * sumr x"
    by (simp add: algebra_simps)
  also have "\<dots> = ?n * sumxy x y - ols_slope x y * (?n * sumxy x (map real_of_int x)) - (sum_list y - ols_slope x y * sumr x) * sumr x"
    unfolding b ..
  also have "\<dots> = (?n * sumxy x y - sumr x * sum_list y) - ols_slope x y * ?D"
    by (simp add: algebra_simps)
  also have "\<dots> = 0" using a by simp
  finally show ?thesis using n by simp
qed

lemma ols_minimises:
  assumes "x \<noteq> []" "length x = length y"
    and "real (length x) * sumxy x (map real_of_int x) - sumr x * sumr x \<noteq> 0"
  shows "sq_residuals x y (ols_slope x y) (ols_intercept x y) \<le> sq_residuals x y a b"
proof -
  have "0 \<le> (\<Sum>u\<leftarrow>x. ((ols_slope x y - a) * real_of_int u + (ols_intercept x y - b))\<^sup>2)"
    by (rule sum_list_nonneg) auto
  then show ?thesis
    using sq_residuals_expand [OF assms(2), of a b "ols_slope x y" "ols_intercept x y"]
      normal_eq_intercept [OF assms(1), of y] normal_eq_slope [OF assms(1) assms(3), of y]
    by simp
qed

lemma ols_slope_linear:
  assumes "real (length x) * sumxy x (map real_of_int x) - sumr x * sumr x \<noteq> 0"
  shows "ols_slope x (map (\<lambda>u. a * real_of_int u + b) x) = a"
proof -
  have 1: "sumxy x (map (\<lambda>u. a * real_of_int u + b) x) = a * sumxy x (map real_of_int x) + b * sumr x"
    by (induction x) (simp_all add: sumxy_def sumr_def algebra_simps)
  have 2: "sum_list (map (\<lambda>u. a * real_of_int u + b) x) = a * sumr x + b * real (length x)"
    by (induction x) (simp_all add: sumr_def algebra_simps)
  have "real (length x) * sumxy x (map (\<lambda>u. a * real_of_int u + b) x) - sumr x * sum_list (map (\<lambda>u. a * real_of_int u + b) x)
      = a * (real (length x) * sumxy x (map real_of_int x) - sumr x * sumr x)"
    unfolding 1 2 by (simp add: algebra_simps)
  then show ?thesis using assms by (simp add: ols_slope_def)
qed

lemma ols_slope_shift:
  assumes "length x = length y"
  shows "ols_slope (map (\<lambda>u. u + k) x) y = ols_slope x y"
proof -
  have 1: "sumr (map (\<lambda>u. u + k) x) = sumr x + real (length x) * real_of_int k"
    by (induction x) (simp_all add: sumr_def algebra_simps)
  have 2: "sumxy (map (\<lambda>u. u + k) x) y = sumxy x y + real_of_int k * sum_list y"
    using assms by (induction x y rule: list_induct2) (simp_all add: sumxy_def algebra_simps)
  have 3: "sumxy (map (\<lambda>u. u + k) x) (map real_of_int (map (\<lambda>u. u + k) x))
        = sumxy x (map real_of_int x) + 2 * real_of_int k * sumr x + real (length x) * (real_of_int k)\<^sup>2"
    by (induction x) (simp_all add: sumxy_def sumr_def algebra_simps power2_eq_square)
  show ?thesis
    unfolding ols_slope_def 1 2 3 by (simp add: algebra_simps power2_eq_square)
qed

subsection \<open>The nested loops\<close>

lemma loop_end_years_char:
  "loop_end_years fit mt g s es tr = (tr', r) \<Longrightarrow>
   (case r of
      None \<Rightarrow> (\<forall>e\<in>set es. \<exists>v. trend_cell fit mt g s e = Inr v) \<and>
              tr' = (\<lambda>k. if fst k = s \<and> snd k \<in> set es
                          then Some (projr (trend_cell fit mt g s (snd k))) else tr k)
    | Some err \<Rightarrow> (\<exists>pre e post. es = pre @ e # post \<and>
              (\<forall>e'\<in>set pre. \<exists>v. trend_cell fit mt g s e' = Inr v) \<and>
              trend_cell fit mt g s e = Inl err \<and>
              tr' = (\<lambda>k. if fst k = s \<and> snd k \<in> set pre
                          then Some (projr (trend_cell fit mt g s (snd k))) else tr k)))"
proof (induction es arbitrary: tr)
  case Nil
  then show ?case by auto
next
  case (Cons e es)
  show ?case
  proof (cases "trend_cell fit mt g s e")
    case (Inl err)
    with Cons.prems have "tr' = tr" "r = Some err" by auto
    moreover have "e # es = [] @ e # es" by simp
    ultimately show ?thesis using Inl by (auto intro!: exI[of _ "[]"])
  next
    case (Inr v)
    with Cons.prems have run: "loop_end_years fit mt g s es (tr((s, e) \<mapsto> v)) = (tr', r)"
      by simp
    note IH = Cons.IH [OF run]
    show ?thesis
    proof (cases r)
      case None
      with IH Inr show ?thesis by (auto simp: fun_eq_iff)
    next
      case (Some err)
      with IH obtain pre e' post where
        es: "es = pre @ e' # post" and
        ok: "\<forall>e''\<in>set pre. \<exists>v. trend_cell fit mt g s e'' = Inr v" and
        bad: "trend_cell fit mt g s e' = Inl err" and
        tr': "tr' = (\<lambda>k. if fst k = s \<and> snd k \<in> set pre
                          then Some (projr (trend_cell fit mt g s (snd k))) else (tr((s, e) \<mapsto> v)) k)"
        by auto
      have 1: "e # es = (e # pre) @ e' # post" using es by simp
      have 2: "\<forall>e''\<in>set (e # pre). \<exists>v. trend_cell fit mt g s e'' = Inr v" using ok Inr by simp
      have 3: "tr' = (\<lambda>k. if fst k = s \<and> snd k \<in> set (e # pre)
                          then Some (projr (trend_cell fit mt g s (snd k))) else tr k)"
        unfolding tr' using Inr by (auto simp: fun_eq_iff)
      from 1 2 3 bad Some show ?thesis by (simp only: option.case) blast
    qed
  qed
qed


lemma loop_start_years_char:
  "loop_start_years fit mt g ss es tr = (tr', r) \<Longrightarrow>
   (case r of
      None \<Rightarrow> (\<forall>s\<in>set ss. \<forall>e\<in>set es. \<exists>v. trend_cell fit mt g s e = Inr v) \<and>
              tr' = (\<lambda>k. if fst k \<in> set ss \<and> snd k \<in> set es
                          then Some (projr (trend_cell fit mt g (fst k) (snd k))) else tr k)
    | Some err \<Rightarrow> (\<exists>spre s spost epre e epost.
              ss = spre @ s # spost \<and> es = epre @ e # epost \<and>
              (\<forall>s'\<in>set spre. \<forall>e'\<in>set es. \<exists>v. trend_cell fit mt g s' e' = Inr v) \<and>
              (\<forall>e'\<in>set epre. \<exists>v. trend_cell fit mt g s e' = Inr v) \<and>
              trend_cell fit mt g s e = Inl err \<and>
              tr' = (\<lambda>k. if fst k \<in> set spre \<and> snd k \<in> set es \<or> fst k = s \<and> snd k \<in> set epre
                          then Some (projr (trend_cell fit mt g (fst k) (snd k))) else tr k)))"
proof (induction ss arbitrary: tr)
  case Nil
  then show ?case by auto
next
  case (Cons s ss)
  obtain tr1 r1 where inner: "loop_end_years fit mt g s es tr = (tr1, r1)"
    by (cases "loop_end_years fit mt g s es tr")
  note C = loop_end_years_char [OF inner]
  show ?case
  proof (cases r1)
    case (Some err)
    with Cons.prems inner have res: "tr' = tr1" "r = Some err" by auto
    from C Some obtain epre e epost where
      es: "es = epre @ e # epost" and
      ok: "\<forall>e'\<in>set epre. \<exists>v. trend_cell fit mt g s e' = Inr v" and
      bad: "trend_cell fit mt g s e = Inl err" and
      tr1: "tr1 = (\<lambda>k. if fst k = s \<and> snd k \<in> set epre
                          then Some (projr (trend_cell fit mt g s (snd k))) else tr k)"
      by auto
    have 1: "s # ss = [] @ s # ss" by simp
    have 2: "\<forall>s'\<in>set []. \<forall>e'\<in>set es. \<exists>v. trend_cell fit mt g s' e' = Inr v" by simp
    have 3: "tr' = (\<lambda>k. if fst k \<in> set [] \<and> snd k \<in> set es \<or> fst k = s \<and> snd k \<in> set epre
                          then Some (projr (trend_cell fit mt g (fst k) (snd k))) else tr k)"
      unfolding res tr1 by (auto simp: fun_eq_iff)
    from 1 es 2 ok bad 3 show ?thesis unfolding res by (simp only: option.case) blast
  next
    case None
    with Cons.prems inner have run: "loop_start_years fit mt g ss es tr1 = (tr', r)" by simp
    from C None have
      ok1: "\<forall>e\<in>set es. \<exists>v. trend_cell fit mt g s e = Inr v" and
      tr1: "tr1 = (\<lambda>k. if fst k = s \<and> snd k \<in> set es
                          then Some (projr (trend_cell fit mt g s (snd k))) else tr k)"
      by auto
    note IH = Cons.IH [OF run]
    show ?thesis
    proof (cases r)
      case None
      with IH have
        ok2: "\<forall>s\<in>set ss. \<forall>e\<in>set es. \<exists>v. trend_cell fit mt g s e = Inr v" and
        tr': "tr' = (\<lambda>k. if fst k \<in> set ss \<and> snd k \<in> set es
                          then Some (projr (trend_cell fit mt g (fst k) (snd k))) else tr1 k)"
        by auto
      have "tr' = (\<lambda>k. if fst k \<in> set (s # ss) \<and> snd k \<in> set es
                          then Some (projr (trend_cell fit mt g (fst k) (snd k))) else tr k)"
        unfolding tr' tr1 by (auto simp: fun_eq_iff)
      with ok1 ok2 None show ?thesis by simp
    next
      case (Some err)
      with IH obtain spre s' spost epre e epost where
        ss: "ss = spre @ s' # spost" and es: "es = epre @ e # epost" and
        okp: "\<forall>s''\<in>set spre. \<forall>e'\<in>set es. \<exists>v. trend_cell fit mt g s'' e' = Inr v" and
        oke: "\<forall>e'\<in>set epre. \<exists>v. trend_cell fit mt g s' e' = Inr v" and
        bad: "trend_cell fit mt g s' e = Inl err" and
        tr': "tr' = (\<lambda>k. if fst k \<in> set spre \<and> snd k \<in> set es \<or> fst k = s' \<and> snd k \<in> set epre
                          then Some (projr (trend_cell fit mt g (fst k) (snd k))) else tr1 k)"
        by auto
      have 1: "s # ss = (s # spre) @ s' # spost" using ss by simp
      have 2: "\<forall>s''\<in>set (s # spre). \<forall>e'\<in>set es. \<exists>v. trend_cell fit mt g s'' e' = Inr v"
        using okp ok1 by simp
      have 3: "tr' = (\<lambda>k. if fst k \<in> set (s # spre) \<and> snd k \<in> set es \<or> fst k = s' \<and> snd k \<in> set epre
                          then Some (projr (trend_cell fit mt g (fst k) (snd k))) else tr k)"
        unfolding tr' tr1 by (auto simp: fun_eq_iff)
      from 1 es 2 oke bad 3 Some show ?thesis by (simp only: option.case) blast
    qed
  qed
qed

lemma ols_minimiser_unique:
  assumes n: "2 \<le> n" and len: "length y = n"
    and min: "\<forall>a' b'. sq_residuals (map int [0..<n]) y a b \<le> sq_residuals (map int [0..<n]) y a' b'"
  shows "a = ols_slope (map int [0..<n]) y"
proof -
  let ?x = "map int [0..<n]"
  let ?sl = "ols_slope ?x y" and ?ic = "ols_intercept ?x y"
  let ?ts = "map (\<lambda>u. ((?sl - a) * real_of_int u + (?ic - b))\<^sup>2) ?x"
  have ne: "?x \<noteq> []" using n by auto
  have lx: "length ?x = length y" using len by simp
  have D: "real (length ?x) * sumxy ?x (map real_of_int ?x) - sumr ?x * sumr ?x \<noteq> 0"
    using ols_denominator_pos [OF n] by simp
  have "sq_residuals ?x y a b = sq_residuals ?x y ?sl ?ic + sum_list ?ts"
    using sq_residuals_expand [OF lx, of a b ?sl ?ic]
      normal_eq_intercept [OF ne, of y] normal_eq_slope [OF ne D, of y]
    by simp
  moreover have "sq_residuals ?x y a b \<le> sq_residuals ?x y ?sl ?ic" using min by blast
  ultimately have le: "sum_list ?ts \<le> 0" by simp
  have nonneg: "\<forall>t\<in>set ?ts. 0 \<le> t" by auto
  then have "0 \<le> sum_list ?ts" by (intro sum_list_nonneg) blast
  with le have "sum_list ?ts = 0" by simp
  with nonneg have zero: "\<forall>t\<in>set ?ts. t = 0"
    using sum_list_nonneg_eq_0_iff [of ?ts] by blast
  have "0 \<in> set ?x" "1 \<in> set ?x" using n by (auto simp: image_iff intro: bexI[of _ 0] bexI[of _ 1])
  then have "((?sl - a) * real_of_int 0 + (?ic - b))\<^sup>2 \<in> set ?ts"
       "((?sl - a) * real_of_int 1 + (?ic - b))\<^sup>2 \<in> set ?ts"
    by (auto simp only: set_map)
  with zero have "((?sl - a) * real_of_int 0 + (?ic - b))\<^sup>2 = 0"
       "((?sl - a) * real_of_int 1 + (?ic - b))\<^sup>2 = 0"
    by blast+
  then show ?thesis by simp
qed

lemma take_indexTime:
  "take (length (gradientSubset g s e)) (indexTime g) = map int [0..<length (gradientSubset g s e)]"
proof -
  have "length (gradientSubset g s e) \<le> length g"
    by (simp add: gradientSubset_def sel_time_def)
  then show ?thesis by (simp add: indexTime_def take_map min_def)
qed

lemma trend_cell_np:
  "trend_cell np_polyfit1 mt g s e =
     Inr (if e \<le> s \<or> e - s < mt \<or> length (gradientSubset g s e) \<le> 12 then NaN
          else Value (ols_slope (map int [0..<length (gradientSubset g s e)])
                         (map snd (gradientSubset g s e)) * 120))"
  unfolding trend_cell_def Let_def interval_def trendLength_def take_indexTime
  by (auto simp: np_polyfit1_def)

lemma set_py_range: "set (py_range a b) = {a..b - 1}"
  by (simp add: py_range_def)

lemma CalculateTrends_np:
  "CalculateTrends np_polyfit1 mt g =
     (\<lambda>k. if fst k \<in> {yearStart..yearEnd - mt} \<and> snd k \<in> {yearStart + mt..yearEnd}
           then Some (projr (trend_cell np_polyfit1 mt g (fst k) (snd k))) else None, None)"
proof -
  obtain tr r where run: "CalculateTrends np_polyfit1 mt g = (tr, r)"
    by (cases "CalculateTrends np_polyfit1 mt g")
  note C = loop_start_years_char [OF run [unfolded CalculateTrends_def]]
  have r: "r = None"
  proof (cases r)
    case (Some err)
    with C obtain s e where "trend_cell np_polyfit1 mt g s e = Inl err" by auto
    then show ?thesis by (simp add: trend_cell_np)
  qed simp
  with C have "tr = (\<lambda>k. if fst k \<in> {yearStart..yearEnd - mt} \<and> snd k \<in> {yearStart + mt..yearEnd}
           then Some (projr (trend_cell np_polyfit1 mt g (fst k) (snd k))) else None)"
    by (simp add: set_py_range)
  with run r show ?thesis by simp
qed

subsection \<open>Helper facts for the claims about the trend matrix\<close>

lemma entry_np:
  assumes "yearStart \<le> s" "s \<le> yearEnd - mt" "yearStart + mt \<le> e" "e \<le> yearEnd"
  shows "fst (CalculateTrends np_polyfit1 mt g) (s, e) =
     Some (if e \<le> s \<or> e - s < mt \<or> length (gradientSubset g s e) \<le> 12 then NaN
          else Value (ols_slope (map int [0..<length (gradientSubset g s e)])
                         (map snd (gradientSubset g s e)) * 120))"
  using assms by (simp add: CalculateTrends_np trend_cell_np)

lemma linear_window_slope:
  assumes srt: "sorted (map fst g)"
    and lin: "\<forall>i<length g. snd (g ! i) = real i / 100"
    and n: "2 \<le> length (sel_time g lo hi)"
  shows "ols_slope (map int [0..<length (sel_time g lo hi)]) (map snd (sel_time g lo hi)) = 1 / 100"
proof -
  let ?sub = "sel_time g lo hi"
  let ?n = "length ?sub"
  let ?x = "map int [0..<?n]"
  from sel_time_contiguous [OF srt, of lo hi]
  obtain k where k: "?sub = take ?n (drop k g)" by blast
  have len: "?n \<le> length g - k"
  proof -
    have "length (take ?n (drop k g)) = ?n" using k by simp
    then show ?thesis by simp
  qed
  have "map snd ?sub = map (\<lambda>u. (1 / 100) * real_of_int u + real k / 100) ?x"
  proof (rule nth_equalityI)
    show "length (map snd ?sub) = length (map (\<lambda>u. (1 / 100) * real_of_int u + real k / 100) ?x)"
      by simp
  next
    fix i assume "i < length (map snd ?sub)"
    then have i: "i < ?n" by simp
    with len have ki: "k + i < length g" by simp
    have "?sub ! i = take ?n (drop k g) ! i" using k by simp
    also have "\<dots> = g ! (k + i)" using i ki by simp
    finally have "snd (?sub ! i) = real (k + i) / 100" using lin ki by simp
    with i show "map snd ?sub ! i = map (\<lambda>u. (1 / 100) * real_of_int u + real k / 100) ?x ! i"
      by (simp add: field_simps)
  qed
  moreover have "real (length ?x) * sumxy ?x (map real_of_int ?x) - sumr ?x * sumr ?x \<noteq> 0"
    using ols_denominator_pos [OF n] by simp
  ultimately show ?thesis using ols_slope_linear [of ?x "1 / 100" "real k / 100"] by simp
qed

lemma linear_subset_slope:
  assumes "sorted (map fst g)"
    and "\<forall>i<length g. snd (g ! i) = real i / 100"
    and "2 \<le> length (gradientSubset g s e)"
  shows "ols_slope (map int [0..<length (gradientSubset g s e)]) (map snd (gradientSubset g s e)) = 1 / 100"
  using assms unfolding gradientSubset_def Let_def by (rule linear_window_slope)

lemma len24: "length (gradientSubset monthly_1870 1870 1871) = 24"
  by (simp add: gradientSubset_def monStart_def monEnd_def dayStart_def dayEnd_def
      monthly_1870_def upt_rec sel_time_def mkdate_def)

lemma sorted_monthly: "sorted (map fst monthly_1870)"
  by (simp add: monthly_1870_def upt_rec)

lemma vals_monthly: "\<forall>i<length monthly_1870. snd (monthly_1870 ! i) = real i / 100"
  by (simp add: monthly_1870_def)

lemma len2: "length (gradientSubset monthly_1870 1872 1873) = 2"
  by (simp add: gradientSubset_def monStart_def monEnd_def dayStart_def dayEnd_def
      monthly_1870_def upt_rec sel_time_def mkdate_def)

lemma ols_slope_shift_upt:
  fixes ys :: "real list"
  shows "ols_slope (map (\<lambda>i. int i + k) [0 ..< length ys]) ys
      = ols_slope (map int [0 ..< length ys]) ys"
proof -
  have "length (map int [0 ..< length ys]) = length ys" by simp
  from ols_slope_shift [OF this, of k] show ?thesis by (simp add: comp_def)
qed

lemma entry_np_cong:
  assumes "yearStart \<le> s" "s \<le> yearEnd - mt" "yearStart + mt \<le> e" "e \<le> yearEnd"
    and eq: "map snd (gradientSubset g' s e) =
             map snd (gradientSubset g s e)"
  shows "fst (CalculateTrends np_polyfit1 mt g') (s, e) =
         fst (CalculateTrends np_polyfit1 mt g) (s, e)"
proof -
  have "length (map snd (gradientSubset g' s e))
      = length (map snd (gradientSubset g s e))"
    by (simp only: eq)
  then have len: "length (gradientSubset g' s e)
      = length (gradientSubset g s e)"
    by (simp only: length_map)
  show ?thesis
    by (simp only: entry_np [OF assms(1-4)] eq len)
qed

lemma upto_split_facts:
  assumes "[a..b] = pre @ x # post"
  shows "sorted (pre @ x # post)" "distinct (pre @ x # post)"
    "\<And>y. (a \<le> y \<and> y \<le> b) = (y \<in> set pre \<or> y = x \<or> y \<in> set post)"
proof -
  have "sorted [a..b]" "distinct [a..b]" by simp_all
  then show "sorted (pre @ x # post)" "distinct (pre @ x # post)" by (simp_all only: assms)
  fix y
  have "(y \<in> set [a..b]) = (y \<in> set (pre @ x # post))" by (simp only: assms)
  then show "(a \<le> y \<and> y \<le> b) = (y \<in> set pre \<or> y = x \<or> y \<in> set post)"
    by (simp only: set_upto atLeastAtMost_iff set_append list.set Un_iff insert_iff)
qed

lemma upto_split_before:
  assumes "[a..b] = pre @ x # post"
  shows "set pre = {a..x - 1}"
proof -
  note f = upto_split_facts [OF assms]
  have lt: "p < x" if "p \<in> set pre" for p
  proof -
    from f(1) that have "p \<le> x" by (simp add: sorted_append)
    moreover from f(2) that have "p \<noteq> x" by auto
    ultimately show ?thesis by simp
  qed
  have gt: "x < p" if "p \<in> set post" for p
  proof -
    from f(1) that have "x \<le> p" by (simp add: sorted_append)
    moreover from f(2) that have "p \<noteq> x" by auto
    ultimately show ?thesis by simp
  qed
  show ?thesis
  proof (rule set_eqI)
    fix y
    show "y \<in> set pre \<longleftrightarrow> y \<in> {a..x - 1}"
    proof
      assume y: "y \<in> set pre"
      then have "a \<le> y" using f(3) [of y] by blast
      moreover have "y < x" using lt [OF y] .
      ultimately show "y \<in> {a..x - 1}" by simp
    next
      assume y: "y \<in> {a..x - 1}"
      have "a \<le> x \<and> x \<le> b" using f(3) [of x] by blast
      with y have "a \<le> y \<and> y \<le> b" by simp
      then have "y \<in> set pre \<or> y = x \<or> y \<in> set post" using f(3) [of y] by blast
      moreover have "y \<noteq> x" using y by simp
      moreover have "y \<notin> set post" using gt [of y] y by auto
      ultimately show "y \<in> set pre" by blast
    qed
  qed
qed

lemma upto_split_mem:
  assumes "[a..b] = pre @ x # post"
  shows "x \<in> {a..b}"
  using upto_split_facts(3) [OF assms, of x] by simp

lemma first_cell_fails:
  assumes "a \<le> b" "c \<le> d" "trend_cell fit mt g a c = Inl err"
  shows "loop_start_years fit mt g [a..b] [c..d] tr = (tr, Some err)"
  using assms by (simp add: upto_rec1 [of a b] upto_rec1 [of c d])

lemma failing_first_cell:
  "trend_cell (polyfit_failing_at 24) 1 monthly_1870 1870 1871 = Inl LinAlgError"
  unfolding trend_cell_def Let_def interval_def trendLength_def take_indexTime
  unfolding len24 by (simp add: polyfit_failing_at_def len24)

lemma failing_run:
  "CalculateTrends (polyfit_failing_at 24) 1 monthly_1870 = (Map.empty, Some LinAlgError)"
  unfolding CalculateTrends_def py_range_def yearStart_def yearEnd_def
  using first_cell_fails [of 1870 2023 1871 2024, OF _ _ failing_first_cell]
  by simp

lemma len26: "length (gradientSubset monthly_1870 1870 1872) = 26"
  by (simp add: gradientSubset_def monStart_def monEnd_def dayStart_def dayEnd_def
      monthly_1870_def upt_rec sel_time_def mkdate_def)

lemma later_cell_alone:
  "trend_cell (polyfit_failing_at 24) 1 monthly_1870 1870 1872 = Inr (Value (12 / 10))"
proof -
  have "2 \<le> length (gradientSubset monthly_1870 1870 1872)" unfolding len26 by simp
  from linear_subset_slope [OF sorted_monthly vals_monthly this]
  have "trend_cell np_polyfit1 1 monthly_1870 1870 1872 = Inr (Value (12 / 10))"
    unfolding trend_cell_np len26 by simp
  moreover have "trend_cell (polyfit_failing_at 24) 1 monthly_1870 1870 1872
      = trend_cell np_polyfit1 1 monthly_1870 1870 1872"
    unfolding trend_cell_def Let_def interval_def trendLength_def take_indexTime
    unfolding len26 by (simp add: polyfit_failing_at_def len26)
  ultimately show ?thesis by simp
qed

subsection \<open>Claim C1: a valid window records the least-squares slope times 120\<close>

text \<open>
  Claim C1. For a pair inside the generated ranges with \<open>start_year < end_year\<close>,
  \<open>end_year - start_year \<ge> minTrend\<close> and more than 12 selected samples, the recorded
  trend is \<open>slope * 120\<close>, where \<open>slope\<close> is the least-squares slope of the selected
  values against the indices \<open>0, 1, \<dots>\<close>: the fitted line minimises the sum of squared
  residuals and every minimiser has this slope. For the series whose sample \<open>i\<close> has the
  value \<open>0.01 * i\<close> on a time-sorted axis, the recorded trend is \<open>1.2\<close> whatever the
  length of the window. The fit is \<open>np_polyfit1\<close>, numpy's fit in exact arithmetic.
\<close>

theorem trend_is_ols_slope_times_120:
  assumes "yearStart \<le> start_year" "start_year \<le> yearEnd - minTrend"
    and "yearStart + minTrend \<le> end_year" "end_year \<le> yearEnd"
    and "start_year < end_year" "minTrend \<le> end_year - start_year"
    and "12 < length (gradientSubset gradient start_year end_year)"
  shows "let ys = map snd (gradientSubset gradient start_year end_year);
             idx = map int [0 ..< length ys];
             recorded = fst (CalculateTrends np_polyfit1 minTrend gradient) (start_year, end_year)
         in (\<exists>slope intercept.
               recorded = Some (Value (slope * 120)) \<and>
               (\<forall>a b. sq_residuals idx ys slope intercept \<le> sq_residuals idx ys a b) \<and>
               (\<forall>a b. (\<forall>a' b'. sq_residuals idx ys a b \<le> sq_residuals idx ys a' b') \<longrightarrow> a = slope)) \<and>
            (sorted (map fst gradient) \<and>
             (\<forall>i<length gradient. snd (gradient ! i) = real i / 100) \<longrightarrow>
               recorded = Some (Value (12 / 10)))"
proof -
  let ?sub = "gradientSubset gradient start_year end_year"
  let ?ys = "map snd ?sub"
  let ?idx = "map int [0 ..< length ?ys]"
  let ?rec = "fst (CalculateTrends np_polyfit1 minTrend gradient) (start_year, end_year)"
  have n: "2 \<le> length ?ys" using assms(7) by simp
  have rec: "?rec = Some (Value (ols_slope ?idx ?ys * 120))"
    using assms by (simp add: entry_np)
  have ne: "?idx \<noteq> []" using n by auto
  have D: "real (length ?idx) * sumxy ?idx (map real_of_int ?idx) - sumr ?idx * sumr ?idx \<noteq> 0"
    using ols_denominator_pos [OF n] by simp
  have min: "\<forall>a b. sq_residuals ?idx ?ys (ols_slope ?idx ?ys) (ols_intercept ?idx ?ys)
                 \<le> sq_residuals ?idx ?ys a b"
    using ols_minimises [OF ne _ D, of ?ys] by simp
  have uniq: "\<forall>a b. (\<forall>a' b'. sq_residuals ?idx ?ys a b \<le> sq_residuals ?idx ?ys a' b')
                 \<longrightarrow> a = ols_slope ?idx ?ys"
    using ols_minimiser_unique [OF n refl] by blast
  have lin: "?rec = Some (Value (12 / 10))"
    if "sorted (map fst gradient)" "\<forall>i<length gradient. snd (gradient ! i) = real i / 100"
  proof -
    have "2 \<le> length ?sub" using n by simp
    from linear_subset_slope [OF that this] rec show ?thesis by simp
  qed
  from rec min uniq lin show ?thesis unfolding Let_def by blast
qed

theorem trend_is_ols_slope_times_120_witness:
  "fst (CalculateTrends np_polyfit1 1 monthly_1870) (1870, 1871) = Some (Value (12 / 10))"
proof -
  have "12 < length (gradientSubset monthly_1870 1870 1871)"
    unfolding len24 by simp
  from trend_is_ols_slope_times_120 [of 1870 1 1871 monthly_1870, OF _ _ _ _ _ _ this]
  show ?thesis
    using sorted_monthly vals_monthly by (simp add: yearStart_def yearEnd_def Let_def)
qed

subsection \<open>Claim C3: windows that cannot be fitted are recorded as NaN\<close>

text \<open>
  Claim C3. For a pair inside the generated ranges with \<open>start_year \<ge> end_year\<close>, or
  \<open>end_year - start_year < minTrend\<close>, or at most 12 selected samples, the dictionary
  holds NaN for the pair and no exception is raised by the run.
\<close>

theorem invalid_windows_are_missing:
  assumes "yearStart \<le> start_year" "start_year \<le> yearEnd - minTrend"
    and "yearStart + minTrend \<le> end_year" "end_year \<le> yearEnd"
    and "end_year \<le> start_year \<or> end_year - start_year < minTrend \<or>
         length (gradientSubset gradient start_year end_year) \<le> 12"
  shows "fst (CalculateTrends np_polyfit1 minTrend gradient) (start_year, end_year) = Some NaN \<and>
         snd (CalculateTrends np_polyfit1 minTrend gradient) = None"
proof -
  have "fst (CalculateTrends np_polyfit1 minTrend gradient) (start_year, end_year) = Some NaN"
    using assms(5) unfolding entry_np [OF assms(1-4)] by auto
  moreover have "snd (CalculateTrends np_polyfit1 minTrend gradient) = None"
    by (simp add: CalculateTrends_np)
  ultimately show ?thesis ..
qed

theorem invalid_windows_are_missing_witness:
  "fst (CalculateTrends np_polyfit1 10 monthly_1870) (1885, 1880) = Some NaN \<and>
   fst (CalculateTrends np_polyfit1 10 monthly_1870) (1880, 1885) = Some NaN \<and>
   fst (CalculateTrends np_polyfit1 1 monthly_1870) (1872, 1873) = Some NaN \<and>
   snd (CalculateTrends np_polyfit1 10 monthly_1870) = None"
proof -
  have "length (gradientSubset monthly_1870 1872 1873) \<le> 12"
    unfolding len2 by simp
  then show ?thesis
    using invalid_windows_are_missing [of 1885 10 1880 monthly_1870]
      invalid_windows_are_missing [of 1880 10 1885 monthly_1870]
      invalid_windows_are_missing [of 1872 1 1873 monthly_1870]
    by (simp add: yearStart_def yearEnd_def)
qed

subsection \<open>Claim C4: the keys of the trend matrix\<close>

text \<open>
  Claim C4. The keys of the dictionary are exactly the pairs with \<open>start_year\<close> in
  \<open>[yearStart, yearEnd - minTrend]\<close> and \<open>end_year\<close> in \<open>[yearStart + minTrend, yearEnd]\<close>;
  a pair outside, such as (1995, 1870) for a positive \<open>minTrend\<close>, has no entry.
\<close>

theorem trend_matrix_keys:
  "dom (fst (CalculateTrends np_polyfit1 minTrend gradient)) =
     {yearStart .. yearEnd - minTrend} \<times> {yearStart + minTrend .. yearEnd} \<and>
   (0 < minTrend \<longrightarrow> fst (CalculateTrends np_polyfit1 minTrend gradient) (1995, 1870) = None)"
  by (auto simp: CalculateTrends_np dom_def yearStart_def split: if_splits)

theorem trend_matrix_keys_witness:
  "dom (fst (CalculateTrends np_polyfit1 10 monthly_1870)) = {1870 .. 2014} \<times> {1880 .. 2024} \<and>
   fst (CalculateTrends np_polyfit1 10 monthly_1870) (1995, 1870) = None"
  using trend_matrix_keys [of 10 monthly_1870] by (simp add: yearStart_def yearEnd_def)

subsection \<open>Claim C10: the trend does not depend on where the window sits\<close>

text \<open>
  Claim C10. For a valid window the recorded trend is the slope of the selected values
  against any shifted index \<open>k, k + 1, \<dots>\<close> times 120, the same as against the prefix
  index the code uses, and two series with the same selected values record the same trend.
\<close>

theorem trend_invariant_under_index_shift:
  assumes "yearStart \<le> start_year" "start_year \<le> yearEnd - minTrend"
    and "yearStart + minTrend \<le> end_year" "end_year \<le> yearEnd"
    and "start_year < end_year" "minTrend \<le> end_year - start_year"
    and "12 < length (gradientSubset gradient start_year end_year)"
  shows "let ys = map snd (gradientSubset gradient start_year end_year);
             recorded = fst (CalculateTrends np_polyfit1 minTrend gradient) (start_year, end_year)
         in (\<forall>k. recorded = Some (Value (ols_slope (map (\<lambda>i. int i + k) [0 ..< length ys]) ys * 120))) \<and>
            (\<forall>gradient'.
               map snd (gradientSubset gradient' start_year end_year) = ys \<longrightarrow>
               fst (CalculateTrends np_polyfit1 minTrend gradient') (start_year, end_year) = recorded)"
proof -
  let ?sub = "gradientSubset gradient start_year end_year"
  let ?ys = "map snd ?sub"
  let ?rec = "fst (CalculateTrends np_polyfit1 minTrend gradient) (start_year, end_year)"
  have rec: "?rec = Some (Value (ols_slope (map int [0 ..< length ?ys]) ?ys * 120))"
    using assms by (simp add: entry_np)
  have "\<forall>k. ?rec = Some (Value (ols_slope (map (\<lambda>i. int i + k) [0 ..< length ?ys]) ?ys * 120))"
    unfolding ols_slope_shift_upt using rec by blast
  moreover have "\<forall>gradient'.
      map snd (gradientSubset gradient' start_year end_year) = ?ys \<longrightarrow>
      fst (CalculateTrends np_polyfit1 minTrend gradient') (start_year, end_year) = ?rec"
    using entry_np_cong [OF assms(1-4)] by blast
  ultimately show ?thesis unfolding Let_def by (rule conjI)
qed

theorem trend_invariant_under_index_shift_witness:
  "fst (CalculateTrends np_polyfit1 1 monthly_1870) (1870, 1871) =
     Some (Value (ols_slope (map (\<lambda>i. int i + 7) [0 ..< 24])
       (map snd (gradientSubset monthly_1870 1870 1871)) * 120))"
proof -
  have h: "yearStart \<le> 1870" "1870 \<le> yearEnd - 1" "yearStart + 1 \<le> 1871" "1871 \<le> yearEnd"
    "(1870::int) < 1871" "(1::int) \<le> 1871 - 1870"
    by (simp_all add: yearStart_def yearEnd_def)
  have n: "12 < length (gradientSubset monthly_1870 1870 1871)"
    unfolding len24 by simp
  note t = trend_invariant_under_index_shift [OF h n, unfolded Let_def length_map len24]
  from t [THEN conjunct1] show ?thesis by (rule spec)
qed

subsection \<open>Claim C2: a failing fit\<close>

text \<open>
  Claim C2, amended. The loops run inside one \<^verbatim>\<open>try\<close> block, so a fit that raises at
  the cell \<open>(s, e)\<close> ends both loops: the exception is the one caught, the cells visited
  before \<open>(s, e)\<close> (a smaller start year, or the same start year and a smaller end year)
  keep the values they were given, and \<open>(s, e)\<close> and every later cell have no entry.
\<close>

theorem fit_failure_ends_the_loops:
  assumes "CalculateTrends fit minTrend gradient = (tr, Some err)"
  shows "\<exists>s e. s \<in> {yearStart .. yearEnd - minTrend} \<and> e \<in> {yearStart + minTrend .. yearEnd} \<and>
           trend_cell fit minTrend gradient s e = Inl err \<and>
           (\<forall>s' e'.
              if s' \<in> {yearStart .. yearEnd - minTrend} \<and> e' \<in> {yearStart + minTrend .. yearEnd} \<and>
                 (s' < s \<or> s' = s \<and> e' < e)
              then \<exists>v. trend_cell fit minTrend gradient s' e' = Inr v \<and> tr (s', e') = Some v
              else tr (s', e') = None)"
proof -
  let ?ss = "py_range yearStart (yearEnd + 1 - minTrend)"
  let ?es = "py_range (yearStart + minTrend) (yearEnd + 1)"
  from loop_start_years_char [OF assms [unfolded CalculateTrends_def]]
  obtain spre s spost epre e epost where
    ss: "?ss = spre @ s # spost" and es: "?es = epre @ e # epost" and
    okp: "\<forall>s'\<in>set spre. \<forall>e'\<in>set ?es. \<exists>v. trend_cell fit minTrend gradient s' e' = Inr v" and
    oke: "\<forall>e'\<in>set epre. \<exists>v. trend_cell fit minTrend gradient s e' = Inr v" and
    bad: "trend_cell fit minTrend gradient s e = Inl err" and
    tr: "tr = (\<lambda>k. if fst k \<in> set spre \<and> snd k \<in> set ?es \<or> fst k = s \<and> snd k \<in> set epre
                then Some (projr (trend_cell fit minTrend gradient (fst k) (snd k))) else None)"
    by auto
  have ss': "[yearStart .. yearEnd - minTrend] = spre @ s # spost"
    using ss by (simp add: py_range_def)
  have es': "[yearStart + minTrend .. yearEnd] = epre @ e # epost"
    using es by (simp add: py_range_def)
  have spre: "set spre = {yearStart .. s - 1}" using upto_split_before [OF ss'] .
  have epre: "set epre = {yearStart + minTrend .. e - 1}" using upto_split_before [OF es'] .
  have s: "s \<in> {yearStart .. yearEnd - minTrend}" using upto_split_mem [OF ss'] .
  have e: "e \<in> {yearStart + minTrend .. yearEnd}" using upto_split_mem [OF es'] .
  have sets: "set ?es = {yearStart + minTrend .. yearEnd}" by (simp add: py_range_def)
  have cells: "if s' \<in> {yearStart .. yearEnd - minTrend} \<and> e' \<in> {yearStart + minTrend .. yearEnd} \<and>
                 (s' < s \<or> s' = s \<and> e' < e)
              then \<exists>v. trend_cell fit minTrend gradient s' e' = Inr v \<and> tr (s', e') = Some v
              else tr (s', e') = None" for s' e'
  proof (cases "s' \<in> {yearStart .. yearEnd - minTrend} \<and> e' \<in> {yearStart + minTrend .. yearEnd} \<and>
                 (s' < s \<or> s' = s \<and> e' < e)")
    case True
    then have mem: "s' \<in> set spre \<and> e' \<in> set ?es \<or> s' = s \<and> e' \<in> set epre"
      unfolding spre epre sets by auto
    then obtain v where v: "trend_cell fit minTrend gradient s' e' = Inr v"
      using okp oke by blast
    have "tr (s', e') = Some (projr (trend_cell fit minTrend gradient s' e'))"
      unfolding tr using mem by simp
    with v True show ?thesis by simp
  next
    case False
    then have "\<not> (s' \<in> set spre \<and> e' \<in> set ?es \<or> s' = s \<and> e' \<in> set epre)"
      unfolding spre epre sets using s e by auto
    then have "tr (s', e') = None" unfolding tr by simp
    with False show ?thesis by simp
  qed
  from s e bad cells show ?thesis by blast
qed

theorem fit_failure_ends_the_loops_witness:
  "\<exists>s e. trend_cell (polyfit_failing_at 24) 1 monthly_1870 s e = Inl LinAlgError \<and>
     (\<forall>s' e'. if s' \<in> {yearStart .. yearEnd - 1} \<and> e' \<in> {yearStart + 1 .. yearEnd} \<and>
                  (s' < s \<or> s' = s \<and> e' < e)
               then \<exists>v. trend_cell (polyfit_failing_at 24) 1 monthly_1870 s' e' = Inr v \<and>
                        Map.empty (s', e') = Some v
               else (Map.empty :: trends) (s', e') = None)"
  using fit_failure_ends_the_loops [OF failing_run] by blast

text \<open>
  Claim C2 as stated asks that the failing cell be marked missing and every other cell
  still be computed. With a fit that fails on the 24 samples of the window (1870, 1871),
  the first cell visited for \<open>minTrend = 1\<close>, that cell has no entry, and the cell
  (1870, 1872), whose own fit succeeds, has none either.
\<close>

theorem fit_failure_not_isolated:
  "trend_cell (polyfit_failing_at 24) 1 monthly_1870 1870 1871 = Inl LinAlgError \<and>
   trend_cell (polyfit_failing_at 24) 1 monthly_1870 1870 1872 = Inr (Value (12 / 10)) \<and>
   fst (CalculateTrends (polyfit_failing_at 24) 1 monthly_1870) (1870, 1871) = None \<and>
   fst (CalculateTrends (polyfit_failing_at 24) 1 monthly_1870) (1870, 1872) = None"
  using failing_first_cell later_cell_alone by (simp add: failing_run)

section \<open>Properties of the gradient\<close>






subsection \<open>Claim C9: the box mean of a constant field\<close>



section \<open>Properties of ExtendPeriod and ConcatModels\<close>

lemma update_values_short:
  assumes "\<forall>p\<in>set al. length (snd p) \<le> 1" "length v \<le> 1"
  shows "\<forall>p\<in>set (AList.update k v al). length (snd p) \<le> 1"
  using assms by (induction al) auto

lemma flatten_sub_values_short:
  assumes "\<forall>p\<in>set flat. length (snd p) \<le> 1"
  shows "\<forall>p\<in>set (flatten_sub key vs counter flat). length (snd p) \<le> 1"
  using assms
proof (induction vs arbitrary: counter flat)
  case Nil
  then show ?case by simp
next
  case (Cons v vs)
  have "\<forall>p\<in>set (AList.update (key @ ''_'' @ str counter) [v] flat). length (snd p) \<le> 1"
    using Cons.prems by (intro update_values_short) simp_all
  from Cons.IH [OF this] show ?case by simp
qed

lemma flatten_values_short:
  assumes "\<forall>p\<in>set flat. length (snd p) \<le> 1"
  shows "\<forall>p\<in>set (flatten reg flat). length (snd p) \<le> 1"
  using assms
proof (induction reg arbitrary: flat)
  case Nil
  then show ?case by simp
next
  case (Cons kv reg)
  obtain key val where kv: "kv = (key, val)" by (cases kv)
  let ?flat' = "if length val > 1 then flatten_sub key val 0 flat else AList.update key val flat"
  have "\<forall>p\<in>set ?flat'. length (snd p) \<le> 1"
  proof (cases "length val > 1")
    case True
    then show ?thesis using flatten_sub_values_short [OF Cons.prems] by simp
  next
    case False
    then have "length val \<le> 1" by simp
    from update_values_short [OF Cons.prems this] False show ?thesis by simp
  qed
  from Cons.IH [OF this] show ?case unfolding kv by simp
qed

lemma model_sources_nth:
  assumes "model_sources ks = Inr ss"
  shows "length ss = length ks \<and>
         (\<forall>i<length ks. \<exists>index. str_index (ks ! i) CHR ''_'' = Inr index \<and> ss ! i = take index (ks ! i))"
  using assms
proof (induction ks arbitrary: ss)
  case Nil
  then show ?case by simp
next
  case (Cons k ks)
  from Cons.prems obtain index ss' where
    idx: "str_index k CHR ''_'' = Inr index" and rest: "model_sources ks = Inr ss'" and
    ss: "ss = take index k # ss'"
    by (auto split: sum.splits)
  note IH = Cons.IH [OF rest]
  show ?case
  proof (intro conjI allI impI)
    show "length ss = length (k # ks)" using IH ss by simp
  next
    fix i assume i: "i < length (k # ks)"
    show "\<exists>index. str_index ((k # ks) ! i) CHR ''_'' = Inr index \<and> ss ! i = take index ((k # ks) ! i)"
    proof (cases i)
      case 0
      with idx ss show ?thesis by simp
    next
      case (Suc j)
      with i IH ss show ?thesis by simp
    qed
  qed
qed

lemma indicesMatch_mem:
  assumes "i \<in> set (map fst (filter snd (zip [0 ..< n] flags)))"
  shows "i < n \<and> i < length flags \<and> flags ! i"
proof -
  from assms obtain b where m: "(i, b) \<in> set (zip [0 ..< n] flags)" and b: "b" by auto
  from m obtain j where j: "j < length (zip [0 ..< n] flags)" "zip [0 ..< n] flags ! j = (i, b)"
    by (auto simp: in_set_conv_nth)
  then have "j < n" "j < length flags" by simp_all
  with j have "i = j" "b = flags ! j" by auto
  with b \<open>j < n\<close> \<open>j < length flags\<close> show ?thesis by simp
qed

lemma random_choice_mem:
  assumes "random_choice r seq = Inr x"
  shows "x \<in> set seq"
  using assms by (auto simp: random_choice_def split: if_splits)

lemma scenarioRandom_source:
  assumes "scenarioRandom r hist reg = Inr chosen"
  shows "\<exists>modelHistID index.
           attrs hist ''source_id'' = Some modelHistID \<and>
           chosen \<in> set (map fst (flatten reg [])) \<and>
           str_index chosen CHR ''_'' = Inr index \<and> take index chosen = modelHistID"
proof -
  let ?keys = "map fst (flatten reg [])"
  from assms obtain modelHistID ss idx where
    src: "attrs hist ''source_id'' = Some modelHistID" and
    ms: "model_sources ?keys = Inr ss" and
    ch: "random_choice r (map fst (filter snd (zip [0 ..< length ?keys]
            (map (\<lambda>modelID. modelID = modelHistID) ss)))) = Inr idx" and
    chosen: "chosen = ?keys ! idx"
    unfolding scenarioRandom_def Let_def by (auto split: option.splits sum.splits)
  from indicesMatch_mem [OF random_choice_mem [OF ch]]
  have "idx < length ?keys \<and> idx < length ss \<and> map (\<lambda>modelID. modelID = modelHistID) ss ! idx"
    by simp
  then have i1: "idx < length ?keys" and i2: "idx < length ss"
    and i3: "map (\<lambda>modelID. modelID = modelHistID) ss ! idx" by simp_all
  from i3 have "ss ! idx = modelHistID" unfolding nth_map [OF i2] .
  with i1 i2 have idx: "idx < length ?keys" "idx < length ss" "ss ! idx = modelHistID" by simp_all
  from model_sources_nth [OF ms] idx(1) obtain index where
    "str_index (?keys ! idx) CHR ''_'' = Inr index" "ss ! idx = take index (?keys ! idx)"
    by blast
  with idx src chosen show ?thesis by auto
qed

lemma update_values_in:
  assumes "\<forall>p\<in>set al. set (snd p) \<subseteq> C" "set v \<subseteq> C"
  shows "\<forall>p\<in>set (AList.update k v al). set (snd p) \<subseteq> C"
  using assms by (induction al) auto

lemma flatten_sub_values_in:
  assumes "\<forall>p\<in>set flat. set (snd p) \<subseteq> C" "set vs \<subseteq> C"
  shows "\<forall>p\<in>set (flatten_sub key vs counter flat). set (snd p) \<subseteq> C"
  using assms
proof (induction vs arbitrary: counter flat)
  case Nil
  then show ?case by simp
next
  case (Cons v vs)
  have "\<forall>p\<in>set (AList.update (key @ ''_'' @ str counter) [v] flat). set (snd p) \<subseteq> C"
    using Cons.prems by (intro update_values_in) simp_all
  from Cons.IH [OF this] Cons.prems(2) show ?case by simp
qed

lemma flatten_values_in:
  assumes "\<forall>p\<in>set flat. set (snd p) \<subseteq> C" "\<forall>p\<in>set reg. set (snd p) \<subseteq> C"
  shows "\<forall>p\<in>set (flatten reg flat). set (snd p) \<subseteq> C"
  using assms
proof (induction reg arbitrary: flat)
  case Nil
  then show ?case by simp
next
  case (Cons kv reg)
  obtain key val where kv: "kv = (key, val)" by (cases kv)
  let ?flat' = "if length val > 1 then flatten_sub key val 0 flat else AList.update key val flat"
  have val: "set val \<subseteq> C" using Cons.prems(2) kv by simp
  have "\<forall>p\<in>set ?flat'. set (snd p) \<subseteq> C"
    using flatten_sub_values_in [OF Cons.prems(1) val] update_values_in [OF Cons.prems(1) val]
    by simp
  moreover have "\<forall>p\<in>set reg. set (snd p) \<subseteq> C" using Cons.prems(2) by simp
  ultimately show ?case using Cons.IH unfolding kv by simp
qed

lemma flatten_candidates:
  assumes "map_of (flatten reg []) k = Some (c # cs)"
  shows "c \<in> \<Union> (set ` snd ` set reg)"
proof -
  have "\<forall>p\<in>set (flatten reg []). set (snd p) \<subseteq> \<Union> (set ` snd ` set reg)"
    by (rule flatten_values_in) auto
  moreover have "(k, c # cs) \<in> set (flatten reg [])" using assms by (rule map_of_SomeD)
  ultimately show ?thesis by fastforce
qed

lemma concat_first_Inr:
  assumes "concat_first M hist cand = Inr full"
  shows "\<exists>c cs. cand = Some (c # cs) \<and> full = xr_concat hist (M c)"
  using assms by (auto simp: concat_first_def split: option.splits list.splits)

lemma ExtendPeriod_Inr:
  assumes "ExtendPeriod M r key hist reg = Inr full"
  shows "(key \<in> set (map fst reg) \<and>
            (\<exists>c cs. map_of reg key = Some (c # cs) \<and> full = xr_concat hist (M c))) \<or>
         (key \<notin> set (map fst reg) \<and>
            (\<exists>chosen c cs. scenarioRandom r hist reg = Inr chosen \<and>
               map_of (flatten reg []) chosen = Some (c # cs) \<and> full = xr_concat hist (M c)))"
proof (cases "key \<in> set (map fst reg)")
  case True
  with assms have "concat_first M hist (map_of reg key) = Inr full"
    by (simp add: ExtendPeriod_def)
  from concat_first_Inr [OF this] True show ?thesis by blast
next
  case False
  with assms obtain chosen where ch: "scenarioRandom r hist reg = Inr chosen"
    and cf: "concat_first M hist (map_of (flatten reg []) chosen) = Inr full"
    by (auto simp: ExtendPeriod_def split: sum.splits)
  from concat_first_Inr [OF cf] ch False show ?thesis by blast
qed

lemma flatten_example:
  "flatten scenario_registry [] = [(''A_r1_0'', [''u1'']), (''A_r1_1'', [''u2'']), (''B_r1'', [''u3''])]"
  by (simp add: scenario_registry_def str.simps)

lemma scenarioRandom_example:
  "scenarioRandom 1 hist_run scenario_registry = Inr ''A_r1_1''"
  unfolding scenarioRandom_def flatten_example
  by (simp add: hist_run_def str_index_def random_choice_def upt_rec)

lemma fallback_example:
  "ExtendPeriod scenario_store 1 ''A_r2'' hist_run scenario_registry =
     Inr (xr_concat hist_run (scenario_store ''u2''))"
  unfolding ExtendPeriod_def scenarioRandom_example flatten_example
  by (simp add: scenario_registry_def concat_first_def)

lemma dates_xr_concat: "dates (xr_concat a b) = dates a @ dates b"
  by (simp add: dates_def xr_concat_def)

lemma ExtendPeriod_candidate:
  assumes "ExtendPeriod M r key hist reg = Inr full"
  shows "\<exists>c\<in>\<Union> (set ` snd ` set reg). full = xr_concat hist (M c)"
proof -
  from ExtendPeriod_Inr [OF assms] consider
    (exact) c cs where "map_of reg key = Some (c # cs)" "full = xr_concat hist (M c)"
  | (fallback) chosen c cs where "map_of (flatten reg []) chosen = Some (c # cs)"
      "full = xr_concat hist (M c)"
    by blast
  then show ?thesis
  proof cases
    case exact
    from map_of_SomeD [OF exact(1)] have "c \<in> \<Union> (set ` snd ` set reg)" by force
    with exact(2) show ?thesis by blast
  next
    case fallback
    from flatten_candidates [OF fallback(1)] fallback(2) show ?thesis by blast
  qed
qed

lemma exact_example:
  "ExtendPeriod scenario_store 0 ''A_r1'' hist_run scenario_registry =
     Inr (xr_concat hist_run (scenario_store ''u1''))"
  by (simp add: ExtendPeriod_def scenario_registry_def concat_first_def)

lemma dates_exact_example:
  "dates (xr_concat hist_run (scenario_store ''u1'')) =
     [(2014, 11, 16, 0), (2014, 12, 16, 0), (2014, 12, 16, 0), (2015, 1, 16, 0)]"
  by (simp add: dates_xr_concat) (simp add: dates_def hist_run_def scenario_store_def)

lemma foldl_xr_concat:
  "foldl (\<lambda>ds m. xr_concat ds (od m)) d ms = d\<lparr>rows := rows d @ concat (map (\<lambda>m. rows (od m)) ms)\<rparr>"
  by (induction ms arbitrary: d) (simp_all add: xr_concat_def)

lemma concat_all:
  "foldl (\<lambda>ds m. xr_concat ds (od m)) (od first) others =
     (od first)\<lparr>rows := concat (map (\<lambda>m. rows (od m)) (first # others))\<rparr>"
  by (simp add: foldl_xr_concat)

lemma rows_update: "rows (d\<lparr>rows := xs\<rparr>) = xs"
  by simp

lemma rows_update_twice: "d\<lparr>rows := xs, rows := ys\<rparr> = d\<lparr>rows := ys\<rparr>"
  by simp

lemma sortby_time_update:
  "sortby_time (d\<lparr>rows := xs\<rparr>) =
     (if \<forall>r\<in>set xs. \<forall>r'\<in>set xs. fst (fst r) = fst (fst r')
      then Inr (d\<lparr>rows := sort_key (\<lambda>r. snd (fst r)) xs\<rparr>) else Inl TypeError)"
  unfolding sortby_time_def rows_update rows_update_twice ..

lemma sort_key_Nil_iff: "sort_key f xs = [] \<longleftrightarrow> xs = []"
  using length_sort [of f xs] by (metis length_0_conv)

lemma ConcatModels_cases:
  fixes od :: "'r \<Rightarrow> 'v dataset"
  defines "start \<equiv> mkdate 1850 1 31" and "stop \<equiv> mkdate 2014 12 1"
  defines "all_rows \<equiv> \<lambda>first others. concat (map (\<lambda>m. rows (od m)) (first # others))"
  defines "hom \<equiv> \<lambda>rs :: (stamp \<times> 'v) list. \<forall>r\<in>set rs. \<forall>r'\<in>set rs. fst (fst r) = fst (fst r')"
  shows "ConcatModels od (first # others) =
     (let ds = (od first)\<lparr>rows := sort_key (\<lambda>r. snd (fst r)) (all_rows first others)\<rparr>
      in if \<not> hom (all_rows first others) then Inl TypeError
         else if all_rows first others = [] then Inl IndexError
         else if fst (fst (hd (rows ds))) = Datetime64 \<or> fst (fst (hd (rows ds))) = DatetimeNoLeap
         then covers ds start stop
         else Inl UnboundLocalError)"
proof -
  let ?all = "all_rows first others"
  let ?raw = "(od first)\<lparr>rows := ?all\<rparr>"
  let ?sorted = "sort_key (\<lambda>r. snd (fst r)) ?all"
  let ?ds = "(od first)\<lparr>rows := ?sorted\<rparr>"
  have unfold: "ConcatModels od (first # others) =
      (case sortby_time ?raw of Inl e \<Rightarrow> Inl e
       | Inr ds \<Rightarrow> (case time_values ds of [] \<Rightarrow> Inl IndexError
           | t0 # _ \<Rightarrow> if fst t0 = Datetime64 then covers ds start stop
                       else if fst t0 = DatetimeNoLeap then covers ds start stop
                       else Inl UnboundLocalError))"
    unfolding ConcatModels_def list.case concat_all Let_def start_def stop_def all_rows_def ..
  have sb: "sortby_time ?raw = (if hom ?all then Inr ?ds else Inl TypeError)"
    unfolding sortby_time_update hom_def ..
  show ?thesis
  proof (cases "hom ?all")
    case False
    then have "sortby_time ?raw = Inl TypeError" unfolding sb by simp
    with False show ?thesis unfolding unfold Let_def by simp
  next
    case True
    then have s: "sortby_time ?raw = Inr ?ds" unfolding sb by simp
    show ?thesis
    proof (cases "?all = []")
      case e: True
      then have "?sorted = []" by (simp only: sort_key_Nil_iff)
      then have "time_values ?ds = []" by (simp add: time_values_def)
      with True e show ?thesis unfolding unfold s Let_def by simp
    next
      case ne: False
      then have "?sorted \<noteq> []" by (simp only: sort_key_Nil_iff) simp
      then obtain r0 rs where rr: "?sorted = r0 # rs" by (cases ?sorted) auto
      then have tv: "time_values ?ds = fst r0 # map fst rs" "hd (rows ?ds) = r0"
        by (simp_all add: time_values_def)
      from True ne show ?thesis unfolding unfold s Let_def sum.case tv list.case by simp
    qed
  qed
qed

lemma covers_Inr:
  "covers ds lo hi = Inr ds' \<longleftrightarrow>
     ds' = ds \<and> snd (fst (hd (rows ds))) \<le> lo \<and> hi \<le> snd (fst (last (rows ds)))"
  by (auto simp: covers_def)

lemma covers_if:
  "covers ds lo hi =
     (if snd (fst (hd (rows ds))) \<le> lo \<and> hi \<le> snd (fst (last (rows ds))) then Inr ds else Inl ValueError)"
  by (simp add: covers_def)

lemma error_chain_Inr:
  fixes c :: "py_error + 'a"
  assumes "(if \<not> P then Inl e1 else if E then Inl e2 else if Q then c else Inl e3) = Inr x"
  shows "P \<and> \<not> E \<and> Q \<and> c = Inr x"
  using assms by (auto split: if_splits)

lemma error_chain_ok:
  fixes c :: "py_error + 'a"
  assumes "P" "\<not> E" "Q"
  shows "(if \<not> P then Inl e1 else if E then Inl e2 else if Q then c else Inl e3) = c"
  using assms by simp

lemma ConcatModels_Inr:
  assumes "ConcatModels od (first # others) = Inr ds'"
  shows "covers ((od first)\<lparr>rows := sort_key (\<lambda>r. snd (fst r))
            (concat (map (\<lambda>m. rows (od m)) (first # others)))\<rparr>)
          (mkdate 1850 1 31) (mkdate 2014 12 1) = Inr ds'"
  using error_chain_Inr [OF assms [unfolded ConcatModels_cases Let_def]] by blast

lemma hd_sort_key_mem:
  assumes "xs \<noteq> []"
  shows "hd (sort_key f xs) \<in> set xs"
proof -
  have "sort_key f xs \<noteq> []" using assms by (simp only: sort_key_Nil_iff) simp
  then have "hd (sort_key f xs) \<in> set (sort_key f xs)" by (rule hd_in_set)
  then show ?thesis by simp
qed

lemma ConcatModels_handled:
  assumes ne: "concat (map (\<lambda>m. rows (od m)) (first # others)) \<noteq> []"
    and k: "\<forall>r\<in>set (concat (map (\<lambda>m. rows (od m)) (first # others))). fst (fst r) = k"
    and h: "k = Datetime64 \<or> k = DatetimeNoLeap"
  shows "ConcatModels od (first # others) =
         covers ((od first)\<lparr>rows := sort_key (\<lambda>r. snd (fst r))
            (concat (map (\<lambda>m. rows (od m)) (first # others)))\<rparr>)
          (mkdate 1850 1 31) (mkdate 2014 12 1)"
proof -
  let ?all = "concat (map (\<lambda>m. rows (od m)) (first # others))"
  let ?ds = "(od first)\<lparr>rows := sort_key (\<lambda>r. snd (fst r)) ?all\<rparr>"
  have P: "\<forall>r\<in>set ?all. \<forall>r'\<in>set ?all. fst (fst r) = fst (fst r')"
    using k by metis
  have "hd (rows ?ds) \<in> set ?all"
    unfolding rows_update using ne by (rule hd_sort_key_mem)
  with k have "fst (fst (hd (rows ?ds))) = k" by blast
  with h have Q: "fst (fst (hd (rows ?ds))) = Datetime64 \<or> fst (fst (hd (rows ?ds))) = DatetimeNoLeap"
    by blast
  show ?thesis
    unfolding ConcatModels_cases Let_def by (rule error_chain_ok [OF P ne Q])
qed

lemma dates_sorted_rows: "sorted (dates (d\<lparr>rows := sort_key (\<lambda>r. snd (fst r)) xs\<rparr>))"
  unfolding dates_def rows_update by (rule sorted_sort_key)

lemma fragments_all_rows:
  "concat (map (\<lambda>m. rows (fragment_store m)) [''late'', ''early'']) =
     [((Datetime64, (1950, 1, 16, 0)), 3), ((Datetime64, (2014, 12, 16, 0)), 4),
      ((Datetime64, (1850, 1, 16, 0)), 1), ((Datetime64, (1949, 12, 16, 0)), 2)]"
  by (simp add: fragment_store_def)

lemma fragments_sorted_rows:
  "sort_key (\<lambda>r. snd (fst r))
     [((Datetime64, (1950, 1, 16, 0)), 3::real), ((Datetime64, (2014, 12, 16, 0)), 4),
      ((Datetime64, (1850, 1, 16, 0)), 1), ((Datetime64, (1949, 12, 16, 0::nat)), 2)] =
     [((Datetime64, (1850::int, 1::nat, 16::nat, 0)), 1), ((Datetime64, (1949, 12, 16, 0)), 2),
      ((Datetime64, (1950, 1, 16, 0)), 3), ((Datetime64, (2014, 12, 16, 0)), 4)]"
  by simp

lemma late_all_rows:
  "concat (map (\<lambda>m. rows (fragment_store m)) [''late'']) =
     [((Datetime64, (1950, 1, 16, 0)), 3), ((Datetime64, (2014, 12, 16, 0)), 4)]"
  by (simp add: fragment_store_def)

lemma late_sorted_rows:
  "sort_key (\<lambda>r. snd (fst r))
     [((Datetime64, (1950::int, 1::nat, 16::nat, 0::nat)), 3::real), ((Datetime64, (2014, 12, 16, 0)), 4)] =
     [((Datetime64, (1950, 1, 16, 0)), 3), ((Datetime64, (2014, 12, 16, 0)), 4)]"
  by simp

lemma run_360_rows:
  "concat (map (\<lambda>m. rows (store_360_day m)) [''hist'']) =
     [((DatetimeOther, (1850, 1, 16, 0)), 1), ((DatetimeOther, (2014, 12, 16, 0)), 2)]"
  by (simp add: store_360_day_def run_360_day_def)

lemma run_360_sorted_rows:
  "sort_key (\<lambda>r. snd (fst r))
     [((DatetimeOther, (1850::int, 1::nat, 16::nat, 0::nat)), 1::real), ((DatetimeOther, (2014, 12, 16, 0)), 2)] =
     [((DatetimeOther, (1850, 1, 16, 0)), 1), ((DatetimeOther, (2014, 12, 16, 0)), 2)]"
  by simp

lemma run_360_fails: "ConcatModels store_360_day [''hist''] = Inl UnboundLocalError"
  unfolding ConcatModels_cases Let_def run_360_rows run_360_sorted_rows rows_update
  by simp

subsection \<open>Claim C5: an exact match is resolved without the random draw\<close>

text \<open>
  Claim C5. When the key is present in the registry, the result is the concatenation of
  the historical run with the first candidate stored under the key; it is the same for
  every random draw, so the fallback plays no part.
\<close>

theorem exact_match_selects_first:
  assumes "key \<in> set (map fst scenarioModels)"
  shows "ExtendPeriod M r key hist scenarioModels = concat_first M hist (map_of scenarioModels key) \<and>
         (\<forall>r'. ExtendPeriod M r' key hist scenarioModels = ExtendPeriod M r key hist scenarioModels) \<and>
         (\<forall>c cs. map_of scenarioModels key = Some (c # cs) \<longrightarrow>
            ExtendPeriod M r key hist scenarioModels = Inr (xr_concat hist (M c)))"
  using assms by (simp add: ExtendPeriod_def concat_first_def)

theorem exact_match_selects_first_witness:
  "\<forall>r. ExtendPeriod scenario_store r ''A_r1'' hist_run scenario_registry =
         Inr (xr_concat hist_run (scenario_store ''u1''))"
proof
  fix r
  have mem: "''A_r1'' \<in> set (map fst scenario_registry)"
    by (simp add: scenario_registry_def)
  have look: "map_of scenario_registry ''A_r1'' = Some (''u1'' # [''u2''])"
    by (simp add: scenario_registry_def)
  from exact_match_selects_first [OF mem, of scenario_store r hist_run] look
  show "ExtendPeriod scenario_store r ''A_r1'' hist_run scenario_registry =
         Inr (xr_concat hist_run (scenario_store ''u1''))"
    by blast
qed

subsection \<open>Claim C6: the fallback draws among candidates of the same source\<close>

text \<open>
  Claim C6. When the key is absent, every entry of the flattened registry holds at most
  one candidate, and whenever the fallback returns a run, for any random draw, the
  flattened key that was drawn is cut at its first underscore into the historical run's
  \<open>source_id\<close>, holds exactly one candidate, and the result is the concatenation of
  the historical run with that candidate.
\<close>

theorem fallback_selects_same_source:
  assumes "key \<notin> set (map fst scenarioModels)"
    and "ExtendPeriod M r key hist scenarioModels = Inr full"
  shows "(\<forall>p\<in>set (flatten scenarioModels []). length (snd p) \<le> 1) \<and>
         (\<exists>chosen c modelHistID index.
            scenarioRandom r hist scenarioModels = Inr chosen \<and>
            chosen \<in> set (map fst (flatten scenarioModels [])) \<and>
            attrs hist ''source_id'' = Some modelHistID \<and>
            str_index chosen CHR ''_'' = Inr index \<and> take index chosen = modelHistID \<and>
            map_of (flatten scenarioModels []) chosen = Some [c] \<and>
            full = xr_concat hist (M c))"
proof -
  have short: "\<forall>p\<in>set (flatten scenarioModels []). length (snd p) \<le> 1"
    by (rule flatten_values_short) simp
  from ExtendPeriod_Inr [OF assms(2)] assms(1) obtain chosen c cs where
    ch: "scenarioRandom r hist scenarioModels = Inr chosen" and
    m: "map_of (flatten scenarioModels []) chosen = Some (c # cs)" and
    full: "full = xr_concat hist (M c)"
    by blast
  have "(chosen, c # cs) \<in> set (flatten scenarioModels [])" using m by (rule map_of_SomeD)
  with short have "cs = []" by fastforce
  with m have m': "map_of (flatten scenarioModels []) chosen = Some [c]" by simp
  from scenarioRandom_source [OF ch] ch m' full short show ?thesis by blast
qed

theorem fallback_selects_same_source_witness:
  "\<exists>chosen c index.
     scenarioRandom 1 hist_run scenario_registry = Inr chosen \<and>
     str_index chosen CHR ''_'' = Inr index \<and> take index chosen = ''A'' \<and>
     map_of (flatten scenario_registry []) chosen = Some [c] \<and>
     xr_concat hist_run (scenario_store ''u2'') = xr_concat hist_run (scenario_store c)"
proof -
  have key: "''A_r2'' \<notin> set (map fst scenario_registry)"
    by (simp add: scenario_registry_def)
  have src: "attrs hist_run ''source_id'' = Some ''A''" by (simp add: hist_run_def)
  from fallback_selects_same_source [OF key fallback_example] src show ?thesis
    by (elim conjE exE) (intro exI conjI, assumption+, simp_all)
qed

subsection \<open>Claim C8: the time axis of an extended run\<close>

text \<open>
  Claim C8, amended. A run returned by the resolver is the historical run followed by
  one candidate of the registry: its time axis is the historical axis followed by the
  candidate's axis, neither sorted nor freed of duplicates. It is strictly increasing
  exactly when both axes are and every historical timestamp lies before every timestamp
  of the candidate.
\<close>

theorem extended_run_time_axis:
  assumes "ExtendPeriod M r key hist scenarioModels = Inr full"
  shows "\<exists>c\<in>\<Union> (set ` snd ` set scenarioModels).
           full = xr_concat hist (M c) \<and>
           dates full = dates hist @ dates (M c) \<and>
           (sorted_wrt (<) (dates full) \<longleftrightarrow>
              sorted_wrt (<) (dates hist) \<and> sorted_wrt (<) (dates (M c)) \<and>
              (\<forall>a\<in>set (dates hist). \<forall>b\<in>set (dates (M c)). a < b))"
proof -
  from ExtendPeriod_candidate [OF assms] obtain c where
    c: "c \<in> \<Union> (set ` snd ` set scenarioModels)" and full: "full = xr_concat hist (M c)"
    by blast
  have "dates full = dates hist @ dates (M c)" unfolding full by (rule dates_xr_concat)
  moreover from this have "sorted_wrt (<) (dates full) \<longleftrightarrow>
              sorted_wrt (<) (dates hist) \<and> sorted_wrt (<) (dates (M c)) \<and>
              (\<forall>a\<in>set (dates hist). \<forall>b\<in>set (dates (M c)). a < b)"
    by (simp only: sorted_wrt_append)
  ultimately show ?thesis using c full by blast
qed

theorem extended_run_time_axis_witness:
  "\<exists>c. xr_concat hist_run (scenario_store ''u2'') = xr_concat hist_run (scenario_store c) \<and>
       dates (xr_concat hist_run (scenario_store ''u2'')) = dates hist_run @ dates (scenario_store c)"
  using extended_run_time_axis [OF fallback_example] by blast

text \<open>
  Claim C8 as stated asks for a strictly increasing axis in every extended run. A
  candidate whose first month is the last month of the historical run gives an axis with
  that month twice.
\<close>

theorem extended_run_has_duplicate_timestamp:
  "ExtendPeriod scenario_store 0 ''A_r1'' hist_run scenario_registry =
     Inr (xr_concat hist_run (scenario_store ''u1'')) \<and>
   dates (xr_concat hist_run (scenario_store ''u1'')) =
     [(2014, 11, 16, 0), (2014, 12, 16, 0), (2014, 12, 16, 0), (2015, 1, 16, 0)] \<and>
   \<not> sorted_wrt (<) (dates (xr_concat hist_run (scenario_store ''u1''))) \<and>
   \<not> distinct (dates (xr_concat hist_run (scenario_store ''u1'')))"
  unfolding dates_exact_example using exact_example by simp

subsection \<open>Claim C7: ConcatModels and the coverage test\<close>

text \<open>
  Claim C7, amended. Whatever ConcatModels returns is the first fragment's dataset with
  the rows of all fragments sorted by time, and it covers 1850-01-31 to 2014-12-01. For
  a non-empty list of fragments with at least one row, whose timestamps are all
  \<^verbatim>\<open>np.datetime64\<close> or all \<^verbatim>\<open>cftime.DatetimeNoLeap\<close>, it returns that dataset if the
  first sorted timestamp is at or before 1850-01-31 and the last at or after 2014-12-01,
  and raises ValueError otherwise.
\<close>

theorem ConcatModels_returns_iff_covered:
  fixes open_dataset :: "'r \<Rightarrow> 'v dataset"
  shows
    "let all_rows = concat (map (\<lambda>m. rows (open_dataset m)) modelDict);
         sorted_rows = sort_key (\<lambda>r. snd (fst r)) all_rows;
         result = (open_dataset (hd modelDict))\<lparr>rows := sorted_rows\<rparr>;
         covered = (snd (fst (hd sorted_rows)) \<le> mkdate 1850 1 31 \<and>
                    mkdate 2014 12 1 \<le> snd (fst (last sorted_rows)))
     in (\<forall>ds. ConcatModels open_dataset modelDict = Inr ds \<longrightarrow>
           ds = result \<and> covered \<and> sorted (dates ds) \<and> mset (rows ds) = mset all_rows) \<and>
        (modelDict \<noteq> [] \<and> all_rows \<noteq> [] \<and>
         ((\<forall>r\<in>set all_rows. fst (fst r) = Datetime64) \<or>
          (\<forall>r\<in>set all_rows. fst (fst r) = DatetimeNoLeap)) \<longrightarrow>
           ConcatModels open_dataset modelDict = (if covered then Inr result else Inl ValueError))"
proof (cases modelDict)
  case Nil
  then show ?thesis by (simp add: ConcatModels_def)
next
  case (Cons first others)
  let ?all = "concat (map (\<lambda>m. rows (open_dataset m)) (first # others))"
  let ?sorted = "sort_key (\<lambda>r. snd (fst r)) ?all"
  let ?res = "(open_dataset first)\<lparr>rows := ?sorted\<rparr>"
  let ?cov = "snd (fst (hd ?sorted)) \<le> mkdate 1850 1 31 \<and> mkdate 2014 12 1 \<le> snd (fst (last ?sorted))"
  have sound: "ds = ?res \<and> ?cov \<and> sorted (dates ds) \<and> mset (rows ds) = mset ?all"
    if "ConcatModels open_dataset (first # others) = Inr ds" for ds
  proof -
    from ConcatModels_Inr [OF that] have ds: "ds = ?res" and c: "?cov"
      unfolding covers_Inr rows_update by simp_all
    have "sorted (dates ds)" unfolding ds by (rule dates_sorted_rows)
    moreover have "mset (rows ds) = mset ?all" unfolding ds rows_update by (rule mset_sort)
    ultimately show ?thesis using ds c by blast
  qed
  have complete: "ConcatModels open_dataset (first # others) = (if ?cov then Inr ?res else Inl ValueError)"
    if ne: "?all \<noteq> []"
      and h: "(\<forall>r\<in>set ?all. fst (fst r) = Datetime64) \<or> (\<forall>r\<in>set ?all. fst (fst r) = DatetimeNoLeap)"
  proof -
    from h have "ConcatModels open_dataset (first # others) =
         covers ?res (mkdate 1850 1 31) (mkdate 2014 12 1)"
    proof
      assume "\<forall>r\<in>set ?all. fst (fst r) = Datetime64"
      from ConcatModels_handled [OF ne this] show ?thesis by blast
    next
      assume "\<forall>r\<in>set ?all. fst (fst r) = DatetimeNoLeap"
      from ConcatModels_handled [OF ne this] show ?thesis by blast
    qed
    then show ?thesis unfolding covers_if rows_update .
  qed
  have "(\<forall>ds. ConcatModels open_dataset (first # others) = Inr ds \<longrightarrow>
           ds = ?res \<and> ?cov \<and> sorted (dates ds) \<and> mset (rows ds) = mset ?all) \<and>
        (first # others \<noteq> [] \<and> ?all \<noteq> [] \<and>
         ((\<forall>r\<in>set ?all. fst (fst r) = Datetime64) \<or>
          (\<forall>r\<in>set ?all. fst (fst r) = DatetimeNoLeap)) \<longrightarrow>
           ConcatModels open_dataset (first # others) = (if ?cov then Inr ?res else Inl ValueError))"
    using sound complete by blast
  then show ?thesis unfolding Cons Let_def list.sel .
qed

theorem ConcatModels_returns_iff_covered_witness:
  "ConcatModels fragment_store [''late'', ''early''] =
     Inr ((fragment_store ''late'')\<lparr>rows :=
       [((Datetime64, (1850, 1, 16, 0)), 1), ((Datetime64, (1949, 12, 16, 0)), 2),
        ((Datetime64, (1950, 1, 16, 0)), 3), ((Datetime64, (2014, 12, 16, 0)), 4)]\<rparr>) \<and>
   ConcatModels fragment_store [''late''] = Inl ValueError"
proof
  note t = ConcatModels_returns_iff_covered [of fragment_store "[''late'', ''early'']",
      unfolded Let_def fragments_all_rows fragments_sorted_rows, THEN conjunct2]
  then show "ConcatModels fragment_store [''late'', ''early''] =
     Inr ((fragment_store ''late'')\<lparr>rows :=
       [((Datetime64, (1850, 1, 16, 0)), 1), ((Datetime64, (1949, 12, 16, 0)), 2),
        ((Datetime64, (1950, 1, 16, 0)), 3), ((Datetime64, (2014, 12, 16, 0)), 4)]\<rparr>)"
    by (simp add: mkdate_def)
next
  note t = ConcatModels_returns_iff_covered [of fragment_store "[''late'']",
      unfolded Let_def late_all_rows late_sorted_rows, THEN conjunct2]
  then show "ConcatModels fragment_store [''late''] = Inl ValueError"
    by (simp add: mkdate_def)
qed

text \<open>
  Claim C7 as stated makes the return depend on the coverage alone. A run on a 360-day
  calendar that is sorted and covers the period is not returned: neither
  \<^verbatim>\<open>isinstance\<close> test accepts its timestamps, the bounds stay unassigned, and the
  comparison raises UnboundLocalError, not the coverage error.
\<close>

theorem covering_run_on_other_calendar_fails:
  "ConcatModels store_360_day [''hist''] = Inl UnboundLocalError \<and>
   sorted (dates run_360_day) \<and>
   snd (fst (hd (rows run_360_day))) \<le> mkdate 1850 1 31 \<and>
   mkdate 2014 12 1 \<le> snd (fst (last (rows run_360_day)))"
  using run_360_fails by (simp add: run_360_day_def dates_def mkdate_def)

end
